theory Spec2Isabelle
  imports Main "HOL-Library.Sublist" "HOL-Library.Multiset" "HOL-Library.List_Lexorder"
begin

section \<open>C strings and allocation\<close>

text \<open>
  A C string is modelled by the list of its bytes before the terminating NUL; a
  \<open>char*\<close> that may be \<open>NULL\<close> is a \<open>string option\<close>.  Lengths and offsets are
  natural numbers: the model covers strings shorter than the range of \<open>size_t\<close>
  and \<open>int\<close>.
\<close>

definition NUL :: char where
  "NUL = CHR 0x00"

definition colon :: char where
  "colon = CHR 0x3A"

definition newline :: char where
  "newline = CHR 0x0A"

definition backslash :: char where
  "backslash = CHR 0x5C"

definition dquote :: char where
  "dquote = CHR 0x22"

definition squote :: char where
  "squote = CHR 0x27"

definition dollar :: char where
  "dollar = CHR 0x24"

text \<open>
  \<open>peek s i\<close> reads \<open>s[i]\<close> of a C string: \<open>None\<close> stands for the terminating NUL
  found at offset \<open>length s\<close>.
\<close>

definition peek :: "string \<Rightarrow> nat \<Rightarrow> char option" where
  "peek s i = (if i < length s then Some (s ! i) else None)"

text \<open>
  The outcomes of the allocation requests that the program checks (\<open>calloc\<close>,
  \<open>reallocf\<close>, \<open>strdup\<close> of the environment value), in program order: the head is
  the outcome of the next request, and a request made on the empty list succeeds.
\<close>

type_synonym heap = "bool list"

fun alloc :: "heap \<Rightarrow> bool \<times> heap" where
  "alloc [] = (True, [])"
| "alloc (b # h) = (b, h)"

text \<open>\<open>strstr s needle\<close>: the offset of the first occurrence of \<open>needle\<close> in \<open>s\<close>.\<close>

fun strstr :: "string \<Rightarrow> string \<Rightarrow> nat option" where
  "strstr [] needle = (if needle = [] then Some 0 else None)"
| "strstr (c # cs) needle =
     (if prefix needle (c # cs) then Some 0 else map_option Suc (strstr cs needle))"

text \<open>
  \<open>strstr(s + start, needle)\<close>, as an offset into \<open>s\<close>.  A start beyond the terminator
  is outside the buffer; the model finds nothing there.
\<close>

definition strstr_from :: "string \<Rightarrow> nat \<Rightarrow> string \<Rightarrow> nat option" where
  "strstr_from s start needle =
     (if start \<le> length s then map_option (\<lambda>k. start + k) (strstr (drop start s) needle)
      else None)"

text \<open>\<open>strchr s c\<close>: the offset of the first \<open>c\<close> in \<open>s\<close>.\<close>

fun strchr :: "string \<Rightarrow> char \<Rightarrow> nat option" where
  "strchr [] c = None"
| "strchr (x # xs) c = (if x = c then Some 0 else map_option Suc (strchr xs c))"

section \<open>append_path_segment\<close>

text \<open>
  The test of the loop body at a match at offset \<open>m\<close>:
  \<^verbatim>\<open>(match == *path || match[-1] == ':') && (match[seglen] == ':' || match[seglen] == 0)\<close>
\<close>

definition field_bounded :: "string \<Rightarrow> nat \<Rightarrow> nat \<Rightarrow> bool" where
  "field_bounded path seglen m =
     ((m = 0 \<or> peek path (m - 1) = Some colon) \<and>
      (peek path (m + seglen) = Some colon \<or> peek path (m + seglen) = None))"

text \<open>
  The \<open>while (match)\<close> loop: \<open>match\<close> is \<open>None\<close> for \<open>NULL\<close> and \<open>Some m\<close> for a pointer
  to offset \<open>m\<close> of the path.  The result says whether the loop left through
  \<open>return 0\<close>.
\<close>

function match_loop :: "string \<Rightarrow> string \<Rightarrow> nat option \<Rightarrow> bool" where
  "match_loop path segment None = False"
| "match_loop path segment (Some m) =
     (if field_bounded path (length segment) m then True
      else match_loop path segment (strstr_from path (m + 1) segment))"
  by pat_completeness auto
termination
proof (relation "measure (\<lambda>(path, segment, match).
          case match of None \<Rightarrow> 0 | Some m \<Rightarrow> Suc (Suc (length path) - m))")
  show "wf (measure (\<lambda>(path, segment, match).
          case match of None \<Rightarrow> 0 | Some m \<Rightarrow> Suc (Suc (length path) - m)))"
    by simp
next
  fix path segment :: string and m :: nat
  show "((path, segment, strstr_from path (m + 1) segment), (path, segment, Some m))
        \<in> measure (\<lambda>(path, segment, match).
          case match of None \<Rightarrow> 0 | Some m \<Rightarrow> Suc (Suc (length path) - m))"
  proof (cases "strstr_from path (m + 1) segment")
    case None
    then show ?thesis by simp
  next
    case (Some m')
    then have "m + 1 \<le> length path" and "m + 1 \<le> m'"
      by (auto simp: strstr_from_def split: if_splits)
    moreover have "m' \<le> length path"
    proof -
      have le: "\<And>s k. strstr s segment = Some k \<Longrightarrow> k \<le> length s"
      proof -
        fix s :: string and k
        show "strstr s segment = Some k \<Longrightarrow> k \<le> length s"
          by (induction s arbitrary: k) (auto split: if_splits)
      qed
      from Some obtain k where "strstr (drop (m + 1) path) segment = Some k" "m' = m + 1 + k"
        by (auto simp: strstr_from_def split: if_splits)
      with le [of "drop (m + 1) path" k] \<open>m + 1 \<le> length path\<close> show ?thesis by simp
    qed
    ultimately show ?thesis using Some by simp
  qed
qed

text \<open>
  \<open>append_path_segment h path segment\<close> returns the return code, the value of
  \<open>*path\<close> after the call and the remaining allocation outcomes.  \<open>reallocf\<close> frees
  the old buffer when it fails, and its result is stored in \<open>*path\<close> before the
  test.  The two \<open>strlcat\<close> calls have room for all of their input.
\<close>

definition append_path_segment ::
    "heap \<Rightarrow> string option \<Rightarrow> string option \<Rightarrow> int \<times> string option \<times> heap" where
  "append_path_segment h path segment =
     (case path of
        None \<Rightarrow> (- 1, path, h)
      | Some p \<Rightarrow>
          (case segment of
             None \<Rightarrow> (- 1, path, h)
           | Some seg \<Rightarrow>
               let pathlen = length p; seglen = length seg in
               if seglen = 0 then (0, path, h)
               else if match_loop p seg (strstr p seg) then (0, path, h)
               else
                 (case alloc h of
                    (False, h') \<Rightarrow> (- 1, None, h')
                  | (True, h') \<Rightarrow>
                      (0, Some ((if pathlen > 0 then p @ [colon] else p) @ seg), h'))))"

section \<open>read_segment\<close>

definition escaped :: "char \<Rightarrow> bool" where
  "escaped c = (c = dquote \<or> c = squote \<or> c = dollar)"

text \<open>The first loop of \<open>read_segment\<close>: the number of characters to escape in \<open>line[0..len)\<close>.\<close>

primrec count_escapes :: "string \<Rightarrow> nat" where
  "count_escapes [] = 0"
| "count_escapes (c # cs) = (if escaped c then 1 else 0) + count_escapes cs"

text \<open>
  The second loop, on the indices \<open>i\<close> and \<open>j\<close> and the buffer \<open>segment\<close>.  A write
  is a list update; the buffer has room for every write (lemma \<open>copy_loop_spec\<close>
  below never leaves it).
\<close>

function copy_loop :: "string \<Rightarrow> nat \<Rightarrow> nat \<Rightarrow> string \<Rightarrow> string" where
  "copy_loop line i j segment =
     (if i < length line then
        let c = line ! i in
        if escaped c then copy_loop line (i + 1) (j + 2) (segment[j := backslash, j + 1 := c])
        else if c = newline then segment[j := NUL]
        else copy_loop line (i + 1) (j + 1) (segment[j := line ! i])
      else segment)"
  by pat_completeness auto
termination
  by (relation "measure (\<lambda>(line, i, j, segment). length line - i)") auto

declare copy_loop.simps [simp del]

text \<open>
  \<open>read_segment h line\<close>: \<open>line\<close> is the \<open>len\<close> bytes that \<open>fgetln\<close> delivered.  The
  result is the \<open>calloc\<close>ed buffer of \<open>len + escapes + 1\<close> bytes after the copy, or
  \<open>None\<close> when \<open>calloc\<close> fails.
\<close>

definition read_segment :: "heap \<Rightarrow> string \<Rightarrow> string option \<times> heap" where
  "read_segment h line =
     (let len = length line;
          escapes = count_escapes line;
          size = len + escapes + 1 in
      case alloc h of
        (False, h') \<Rightarrow> (None, h')
      | (True, h') \<Rightarrow> (Some (copy_loop line 0 0 (replicate size NUL)), h'))"

text \<open>The C string that a buffer holds: its bytes before the first NUL.\<close>

definition c_str :: "string \<Rightarrow> string" where
  "c_str buf = takeWhile (\<lambda>c. c \<noteq> NUL) buf"

section \<open>Process state and environment\<close>

datatype diag = Perror string | Usage

text \<open>
  The state a run changes: the allocation outcomes still to come, and the messages
  written to standard error (\<open>Perror p\<close> for \<open>perror(p)\<close>, which prints \<open>p\<close>, a colon
  and the system's error text).
\<close>

record proc =
  mem :: heap
  err :: "diag list"

datatype fts_info = FTS_D | FTS_DC | FTS_DNR | FTS_DP | FTS_ERR | FTS_F | FTS_NS | FTS_SL

record ftsent =
  fts_info :: fts_info
  fts_level :: int
  fts_accpath :: string

text \<open>
  What the run reads: \<open>fopen w p\<close> is the content of the file opened for reading at
  \<open>p\<close> (\<open>None\<close> when \<open>fopen\<close> fails); \<open>fts_open w d\<close> is \<open>None\<close> when \<open>fts_open\<close> returns
  \<open>NULL\<close>, and otherwise the entries that \<open>fts_read\<close> delivers for \<open>d\<close>, in its order,
  under the \<open>fts_set(FTS_SKIP)\<close> requests of the loop; \<open>getenv w v\<close> is the value of
  the environment variable \<open>v\<close>.  \<open>fts_open\<close> returns \<open>NULL\<close> when it cannot set up the
  traversal (no memory for the stream, an empty path name).  A directory that is
  missing or cannot be read does not make it return \<open>NULL\<close>: \<open>fts_read\<close> then
  delivers the root with \<open>FTS_NS\<close>, or with \<open>FTS_D\<close> and then \<open>FTS_DNR\<close>.
\<close>

record world =
  fopen :: "string \<Rightarrow> string option"
  fts_open :: "string \<Rightarrow> ftsent list option"
  getenv :: "string \<Rightarrow> string option"

section \<open>append_path_file\<close>

text \<open>
  \<open>fgetln\<close> on the rest of a stream: the next line, with its newline when it has
  one, and the stream after it; \<open>None\<close> at end of file.
\<close>

definition fgetln :: "string \<Rightarrow> (string \<times> string) option" where
  "fgetln f =
     (if f = [] then None
      else (case dropWhile (\<lambda>c. c \<noteq> newline) f of
              [] \<Rightarrow> Some (f, [])
            | c # rest \<Rightarrow> Some (takeWhile (\<lambda>c. c \<noteq> newline) f @ [c], rest)))"

text \<open>
  The \<open>for (;;)\<close> loop.  The return code of \<open>append_path_segment\<close> is not looked at.
\<close>

function file_loop :: "string \<Rightarrow> string option \<times> proc \<Rightarrow> string option \<times> proc" where
  "file_loop f (result, s) =
     (case fgetln f of
        None \<Rightarrow> (result, s)
      | Some (line, f') \<Rightarrow>
          (case read_segment (mem s) line of
             (segment, h1) \<Rightarrow>
               (case append_path_segment h1 result (map_option c_str segment) of
                  (rc, result', h2) \<Rightarrow> file_loop f' (result', s\<lparr>mem := h2\<rparr>))))"
  by pat_completeness auto
termination
proof (relation "measure (\<lambda>(f, r). length f)")
  show "wf (measure (\<lambda>(f :: string, r :: string option \<times> proc). length f))"
    by simp
next
  fix f :: string and x line f'
  assume "fgetln f = Some x" and "(line, f') = x"
  then have "fgetln f = Some (line, f')" by simp
  then have "length f' < length f"
  proof (cases "dropWhile (\<lambda>c. c \<noteq> newline) f")
    case Nil
    assume "fgetln f = Some (line, f')"
    then have "f \<noteq> []" by (auto simp: fgetln_def)
    moreover from \<open>fgetln f = Some (line, f')\<close> \<open>f \<noteq> []\<close> have "f' = []"
      unfolding fgetln_def Nil by simp
    ultimately show ?thesis by simp
  next
    case (Cons c rest)
    assume "fgetln f = Some (line, f')"
    with Cons have "f' = rest" by (auto simp: fgetln_def split: if_splits)
    moreover have "length (dropWhile (\<lambda>c. c \<noteq> newline) f) \<le> length f"
      by (rule length_dropWhile_le)
    ultimately show ?thesis using Cons by simp
  qed
  then show "\<And>result s x2 y xa ya.
       ((f', ya, s\<lparr>mem := y\<rparr>), f, result, s) \<in> measure (\<lambda>(f, r). length f)"
    by simp
qed

declare file_loop.simps [simp del]

text \<open>
  \<open>append_path_file w prefix fname\<close> on \<open>*result\<close> and the state.  The file name
  buffer is assumed to be allocated: the source writes into it unchecked.
\<close>

definition append_path_file ::
    "world \<Rightarrow> string \<Rightarrow> string \<Rightarrow> string option \<times> proc \<Rightarrow> string option \<times> proc" where
  "append_path_file w pfx fname rs =
     (let buf = pfx @ ''/'' @ fname in
      case fopen w buf of
        None \<Rightarrow> (fst rs, (snd rs)\<lparr>err := err (snd rs) @ [Perror buf]\<rparr>)
      | Some f \<Rightarrow> file_loop f rs)"

section \<open>The list of file names\<close>

record strlist_s =
  strlist_n :: nat
  strlist_size :: nat
  strs :: "string list"

definition strlist_init :: strlist_s where
  "strlist_init = \<lparr>strlist_n = 0, strlist_size = 100, strs = []\<rparr>"

text \<open>\<open>strs d\<close> holds the \<open>strlist_n d\<close> slots in use; they are assumed to be allocated.\<close>

definition strlist_append :: "strlist_s \<Rightarrow> string \<Rightarrow> strlist_s" where
  "strlist_append d s =
     (let d1 = (if strlist_n d = strlist_size d then d\<lparr>strlist_size := strlist_size d * 2\<rparr>
                else d)
      in d1\<lparr>strs := strs d1 @ [s], strlist_n := strlist_n d1 + 1\<rparr>)"

text \<open>\<open>tolower\<close> in the C locale, on bytes.\<close>

definition tolower :: "char \<Rightarrow> nat" where
  "tolower c =
     (let k = (of_char c :: nat) in if 65 \<le> k \<and> k \<le> 90 then k + 32 else k)"

fun strcasecmp :: "string \<Rightarrow> string \<Rightarrow> int" where
  "strcasecmp [] [] = 0"
| "strcasecmp [] (b # bs) = - int (tolower b)"
| "strcasecmp (a # as) [] = int (tolower a)"
| "strcasecmp (a # as) (b # bs) =
     (if tolower a = tolower b then strcasecmp as bs
      else int (tolower a) - int (tolower b))"

definition strlist_orderfn :: "string \<Rightarrow> string \<Rightarrow> int" where
  "strlist_orderfn a b = strcasecmp a b"

text \<open>
  \<open>qsort\<close> with a comparison function.  C leaves the order of elements that compare
  equal open; the model is one sort that \<open>qsort\<close> may be: insertion from the right,
  which keeps equal elements in their order.
\<close>

fun insert_by :: "('a \<Rightarrow> 'a \<Rightarrow> int) \<Rightarrow> 'a \<Rightarrow> 'a list \<Rightarrow> 'a list" where
  "insert_by cmp x [] = [x]"
| "insert_by cmp x (y # ys) =
     (if cmp x y \<le> 0 then x # y # ys else y # insert_by cmp x ys)"

definition qsort :: "('a \<Rightarrow> 'a \<Rightarrow> int) \<Rightarrow> 'a list \<Rightarrow> 'a list" where
  "qsort cmp xs = foldr (insert_by cmp) xs []"

definition strlist_sort :: "strlist_s \<Rightarrow> strlist_s" where
  "strlist_sort d = d\<lparr>strs := qsort strlist_orderfn (strs d)\<rparr>"

section \<open>construct_path\<close>

text \<open>
  The \<open>fts_read\<close> loop: an entry that is not a regular file is passed over (the
  \<open>fts_set\<close> request acts on the traversal, whose outcome \<open>fts_open w\<close> is), a regular
  file's access path is kept.
\<close>

fun fts_loop :: "ftsent list \<Rightarrow> strlist_s \<Rightarrow> strlist_s" where
  "fts_loop [] files = files"
| "fts_loop (ent # ents) files =
     (if fts_info ent \<noteq> FTS_F then fts_loop ents files
      else fts_loop ents (strlist_append files (fts_accpath ent)))"

text \<open>
  The \<open>while (str)\<close> loop on the copy of the environment value: \<open>str\<close> is the rest
  of the copy, cut at its first colon.
\<close>

function env_loop :: "string \<Rightarrow> string option \<times> proc \<Rightarrow> string option \<times> proc" where
  "env_loop str (result, s) =
     (case strchr str colon of
        None \<Rightarrow>
          (case append_path_segment (mem s) result (Some str) of
             (rc, result', h') \<Rightarrow> (result', s\<lparr>mem := h'\<rparr>))
      | Some k \<Rightarrow>
          (case append_path_segment (mem s) result (Some (take k str)) of
             (rc, result', h') \<Rightarrow> env_loop (drop (k + 1) str) (result', s\<lparr>mem := h'\<rparr>)))"
  by pat_completeness auto
termination
proof (relation "measure (\<lambda>(str, r). length str)")
  show "wf (measure (\<lambda>(str :: string, r :: string option \<times> proc). length str))"
    by simp
next
  fix str :: string and k :: nat
  assume "strchr str colon = Some k"
  then have "k < length str"
    by (induction str arbitrary: k) (auto split: if_splits)
  then show "\<And>result s x y xa ya.
       ((drop (k + 1) str, ya, s\<lparr>mem := y\<rparr>), str, result, s)
       \<in> measure (\<lambda>(str, r). length str)"
    by simp
qed

declare env_loop.simps [simp del]

text \<open>
  \<open>construct_path w s env_var defaults_path dir_path\<close> returns the pointer the
  function returns and the state after it.  \<open>result\<close> is \<open>calloc\<close>ed before the
  directory is opened; the copy of the environment value is \<open>strdup\<close>ed, and the
  loop does not run when there is no copy.
\<close>

definition construct_path ::
    "world \<Rightarrow> proc \<Rightarrow> string \<Rightarrow> string \<Rightarrow> string \<Rightarrow> string option \<times> proc" where
  "construct_path w s env_var defaults_path dir_path =
     (case alloc (mem s) of
        (ok, h1) \<Rightarrow>
          let result = (if ok then Some [] else None);
              s1 = s\<lparr>mem := h1\<rparr> in
          (case fts_open w dir_path of
             None \<Rightarrow> (None, s1\<lparr>err := err s1 @ [Perror dir_path]\<rparr>)
           | Some ents \<Rightarrow>
               let files = strlist_sort (fts_loop ents strlist_init);
                   r1 = append_path_file w [] defaults_path (result, s1);
                   r2 = fold (\<lambda>fname. append_path_file w dir_path fname) (strs files) r1
               in (case getenv w env_var of
                     None \<Rightarrow> r2
                   | Some v \<Rightarrow>
                       (case alloc (mem (snd r2)) of
                          (False, h3) \<Rightarrow> (fst r2, (snd r2)\<lparr>mem := h3\<rparr>)
                        | (True, h3) \<Rightarrow> env_loop v (fst r2, (snd r2)\<lparr>mem := h3\<rparr>)))))"

section \<open>main\<close>

datatype style = STYLE_CSH | STYLE_SH

text \<open>
  A \<open>printf\<close> call with one \<open>%s\<close>: its format and the pointer passed for \<open>%s\<close>
  (\<open>None\<close> for \<open>NULL\<close>, which the source passes on unchecked).
\<close>

type_synonym printf_call = "string \<times> string option"

definition fmt_setenv :: "string \<Rightarrow> string" where
  "fmt_setenv var = ''setenv '' @ var @ '' '' @ [dquote] @ ''%s'' @ [dquote] @ '';'' @ [newline]"

definition fmt_export :: "string \<Rightarrow> string" where
  "fmt_export var =
     var @ ''='' @ [dquote] @ ''%s'' @ [dquote] @ ''; export '' @ var @ '';'' @ [newline]"

text \<open>
  \<open>main w s argv\<close>: \<open>argv\<close> is the argument vector (\<open>argc\<close> is its length, \<open>argv[0]\<close>
  the program name).  The result is the exit status, the \<open>printf\<close> calls made, and
  the state at exit.  \<open>usage()\<close> writes its message and exits with status 1.
\<close>

definition main :: "world \<Rightarrow> proc \<Rightarrow> string list \<Rightarrow> int \<times> printf_call list \<times> proc" where
  "main w s argv =
     (let argc = length argv in
      if argc > 2 then (1, [], s\<lparr>err := err s @ [Usage]\<rparr>)
      else
        let style0 = STYLE_SH;
            style1 = (case getenv w ''SHELL'' of
                        None \<Rightarrow> style0
                      | Some shell \<Rightarrow>
                          (case strstr shell ''csh'' of None \<Rightarrow> style0 | Some k \<Rightarrow> STYLE_CSH));
            style2 = (if argc = 2 \<and> argv ! 1 = ''-c'' then STYLE_CSH else style1);
            style3 = (if argc = 2 \<and> argv ! 1 = ''-s'' then STYLE_SH else style2);
            p = construct_path w s ''PATH'' ''/etc/paths'' ''/etc/paths.d'';
            do_manpath = (getenv w ''MANPATH'' \<noteq> None);
            m = (if do_manpath
                 then construct_path w (snd p) ''MANPATH'' ''/etc/manpaths'' ''/etc/manpaths.d''
                 else (None, snd p))
        in (0,
            (if style3 = STYLE_CSH
             then [(fmt_setenv ''PATH'', fst p)] @
                  (if do_manpath then [(fmt_setenv ''MANPATH'', fst m)] else [])
             else [(fmt_export ''PATH'', fst p)] @
                  (if do_manpath then [(fmt_export ''MANPATH'', fst m)] else [])),
            snd m))"

section \<open>Notions of the specification\<close>

text \<open>The value of \<open>*path\<close> in what \<open>append_path_segment\<close> returns.\<close>

definition path_after :: "int \<times> string option \<times> heap \<Rightarrow> string option" where
  "path_after r = fst (snd r)"

text \<open>\<open>segment\<close> occurs in \<open>path\<close> at offset \<open>i\<close>.\<close>

definition occurs_at :: "string \<Rightarrow> string \<Rightarrow> nat \<Rightarrow> bool" where
  "occurs_at path seg i = (i \<le> length path \<and> prefix seg (drop i path))"

text \<open>
  A whole-field match: \<open>seg\<close> occurs in \<open>path\<close> at an offset where it is bounded by
  the start of the string or a colon on the left, and by the end of the string or
  a colon on the right.
\<close>

definition whole_field :: "string \<Rightarrow> string \<Rightarrow> bool" where
  "whole_field path seg =
     (\<exists>i\<in>{0..length path}. prefix seg (drop i path) \<and>
        (i = 0 \<or> path ! (i - 1) = colon) \<and>
        (i + length seg = length path \<or> path ! (i + length seg) = colon))"

text \<open>
  Sanitizing a line, in the words of the specification: a backslash before every
  double quote, single quote and dollar sign, up to the first newline (exclusive)
  or the end of the input.
\<close>

fun escape_all :: "string \<Rightarrow> string" where
  "escape_all [] = []"
| "escape_all (c # cs) = (if escaped c then backslash # c # escape_all cs else c # escape_all cs)"

definition sanitize :: "string \<Rightarrow> string" where
  "sanitize line = escape_all (takeWhile (\<lambda>c. c \<noteq> newline) line)"

text \<open>The line \<^verbatim>\<open>it's a "test" $HOME\<close> with its newline, and its sanitized form.\<close>

definition raw_example :: string where
  "raw_example = ''it'' @ [squote] @ ''s a '' @ [dquote] @ ''test'' @ [dquote] @ '' $HOME'' @ [newline]"

definition sanitized_example :: string where
  "sanitized_example = ''it'' @ [backslash, squote] @ ''s a '' @ [backslash, dquote] @ ''test''
      @ [backslash, dquote] @ '' '' @ [backslash] @ ''$HOME''"

text \<open>One pass of the loop of \<open>append_path_file\<close>, and the lines of a file.\<close>

definition line_step :: "string \<Rightarrow> string option \<times> proc \<Rightarrow> string option \<times> proc" where
  "line_step line rs =
     (case read_segment (mem (snd rs)) line of
        (segment, h1) \<Rightarrow>
          (case append_path_segment h1 (fst rs) (map_option c_str segment) of
             (rc, result', h2) \<Rightarrow> (result', (snd rs)\<lparr>mem := h2\<rparr>)))"

fun split_lines :: "string \<Rightarrow> string list" where
  "split_lines [] = []"
| "split_lines (c # cs) =
     (if c = newline then [c] # split_lines cs
      else (case split_lines cs of [] \<Rightarrow> [c] # [] | l # ls \<Rightarrow> (c # l) # ls))"

text \<open>One pass of the loop on the environment value, and the fields of a string.\<close>

definition env_step :: "string \<Rightarrow> string option \<times> proc \<Rightarrow> string option \<times> proc" where
  "env_step seg rs =
     (case append_path_segment (mem (snd rs)) (fst rs) (Some seg) of
        (rc, result', h') \<Rightarrow> (result', (snd rs)\<lparr>mem := h'\<rparr>))"

fun split_on :: "char \<Rightarrow> string \<Rightarrow> string list" where
  "split_on c [] = [] # []"
| "split_on c (x # xs) =
     (if x = c then [] # split_on c xs
      else (case split_on c xs of [] \<Rightarrow> [x] # [] | f # fs \<Rightarrow> (x # f) # fs))"

fun join_colon :: "string list \<Rightarrow> string" where
  "join_colon [] = []"
| "join_colon [f] = f"
| "join_colon (f # g # gs) = f @ colon # join_colon (g # gs)"

text \<open>Every allocation still to come succeeds.\<close>

definition all_ok :: "proc \<Rightarrow> bool" where
  "all_ok s = list_all (\<lambda>b. b) (mem s)"

definition s0 :: proc where
  "s0 = \<lparr>mem = [], err = []\<rparr>"

text \<open>
  Example environments.  A file of lines, each ended by a newline; the entries
  \<open>fts_read\<close> delivers for a directory of regular files (the directory before and
  after its files); the system of the end-to-end example: the defaults file with the
  lines \<open>/usr/bin\<close> and \<open>/bin\<close>, one fragment file \<open>local\<close> with the lines
  \<open>/usr/local/bin\<close> and \<open>/usr/bin\<close>, no variable set.  The defaults file is opened
  under the name \<open>append_path_file\<close> builds from the empty prefix, \<open>//etc/paths\<close>.
\<close>

definition text_of :: "string list \<Rightarrow> string" where
  "text_of ls = concat (map (\<lambda>l. l @ [newline]) ls)"

definition dir_ents :: "string \<Rightarrow> string list \<Rightarrow> ftsent list" where
  "dir_ents d names =
     \<lparr>fts_info = FTS_D, fts_level = 0, fts_accpath = d\<rparr> #
     map (\<lambda>n. \<lparr>fts_info = FTS_F, fts_level = 1, fts_accpath = n\<rparr>) names @
     [\<lparr>fts_info = FTS_DP, fts_level = 0, fts_accpath = d\<rparr>]"

definition w_example :: world where
  "w_example =
     \<lparr>fopen = map_of [(''//etc/paths'', text_of [''/usr/bin'', ''/bin'']),
                      (''/etc/paths.d/local'', text_of [''/usr/local/bin'', ''/usr/bin''])],
      fts_open = map_of [(''/etc/paths.d'', dir_ents ''/etc/paths.d'' [''local''])],
      getenv = Map.empty\<rparr>"

text \<open>\<open>SHELL\<close> is set and contains \<open>csh\<close>.\<close>

definition csh_shell :: "world \<Rightarrow> bool" where
  "csh_shell w = (case getenv w ''SHELL'' of None \<Rightarrow> False | Some shell \<Rightarrow> sublist ''csh'' shell)"

text \<open>
  The run of \<open>main\<close> without a flag: status 0, the \<open>PATH\<close> statement with the path
  built for \<open>PATH\<close>, then the \<open>MANPATH\<close> statement with the path built for
  \<open>MANPATH\<close> when that variable is set, both in the style \<open>SHELL\<close> selects.
\<close>

definition normal_run :: "world \<Rightarrow> proc \<Rightarrow> int \<times> printf_call list \<times> proc" where
  "normal_run w s =
     (let fmt = (if csh_shell w then fmt_setenv else fmt_export);
          p = construct_path w s ''PATH'' ''/etc/paths'' ''/etc/paths.d''
      in if getenv w ''MANPATH'' = None then (0, [(fmt ''PATH'', fst p)], snd p)
         else
           (let m = construct_path w (snd p) ''MANPATH'' ''/etc/manpaths'' ''/etc/manpaths.d''
            in (0, [(fmt ''PATH'', fst p), (fmt ''MANPATH'', fst m)], snd m)))"

text \<open>
  The example system when \<open>fts_open\<close> returns \<open>NULL\<close>; with a fragment directory
  that is missing (the root is delivered with \<open>FTS_NS\<close>); with one that cannot be
  read (the root is delivered with \<open>FTS_D\<close>, then with \<open>FTS_DNR\<close>); with an empty
  one; and with \<open>SHELL\<close> set to a C shell.
\<close>

definition w_fts_null :: world where
  "w_fts_null = w_example\<lparr>fts_open := (\<lambda>d. None)\<rparr>"

definition w_missing :: world where
  "w_missing =
     w_example\<lparr>fts_open := map_of [(''/etc/paths.d'',
       [\<lparr>fts_info = FTS_NS, fts_level = 0, fts_accpath = ''/etc/paths.d''\<rparr>])]\<rparr>"

definition w_unreadable :: world where
  "w_unreadable =
     w_example\<lparr>fts_open := map_of [(''/etc/paths.d'',
       [\<lparr>fts_info = FTS_D, fts_level = 0, fts_accpath = ''/etc/paths.d''\<rparr>,
        \<lparr>fts_info = FTS_DNR, fts_level = 0, fts_accpath = ''/etc/paths.d''\<rparr>])]\<rparr>"

definition w_emptydir :: world where
  "w_emptydir = w_example\<lparr>fts_open := map_of [(''/etc/paths.d'', dir_ents ''/etc/paths.d'' [])]\<rparr>"

definition w_tcsh :: world where
  "w_tcsh = w_example\<lparr>getenv := map_of [(''SHELL'', ''/bin/tcsh'')]\<rparr>"

text \<open>
  A system with the fragment files \<open>10-x\<close>, \<open>2-y\<close> and \<open>20-z\<close>, which \<open>fts_read\<close>
  delivers in the order \<open>20-z\<close>, \<open>2-y\<close>, \<open>10-x\<close>.
\<close>

definition w_numbered :: world where
  "w_numbered =
     \<lparr>fopen = map_of [(''//etc/paths'', text_of [''/bin'']),
                      (''/etc/paths.d/10-x'', text_of [''/x'']),
                      (''/etc/paths.d/2-y'', text_of [''/y'']),
                      (''/etc/paths.d/20-z'', text_of [''/z''])],
      fts_open = map_of [(''/etc/paths.d'', dir_ents ''/etc/paths.d'' [''20-z'', ''2-y'', ''10-x''])],
      getenv = Map.empty\<rparr>"

text \<open>A path with further segments appended, each after a colon unless the path is empty.\<close>

definition extend_path :: "string \<Rightarrow> string list \<Rightarrow> string" where
  "extend_path p new = foldl (\<lambda>q seg. if q = [] then seg else q @ colon # seg) p new"

text \<open>
  Segments in the order first encountered: an empty segment and a segment already
  in the list are dropped.
\<close>

definition add_seg :: "string list \<Rightarrow> string \<Rightarrow> string list" where
  "add_seg fs seg = (if seg = [] \<or> seg \<in> set fs then fs else fs @ [seg])"

definition first_seen :: "string list \<Rightarrow> string list" where
  "first_seen segs = foldl add_seg [] segs"

text \<open>
  What a build scans: the sanitized lines of a file (none when it cannot be opened),
  as the C strings \<open>append_path_segment\<close> receives; the fragment files in sorted
  order; the lines of the defaults file, then those of the fragment files; the
  fields of the environment value, when the variable is set.
\<close>

definition file_segments :: "world \<Rightarrow> string \<Rightarrow> string list" where
  "file_segments w p =
     (case fopen w p of None \<Rightarrow> [] | Some f \<Rightarrow> map (\<lambda>l. c_str (sanitize l)) (split_lines f))"

definition fragment_names :: "world \<Rightarrow> string \<Rightarrow> string list" where
  "fragment_names w dir_path =
     (case fts_open w dir_path of
        None \<Rightarrow> []
      | Some ents \<Rightarrow>
          qsort strlist_orderfn (map fts_accpath (filter (\<lambda>e. fts_info e = FTS_F) ents)))"

definition scanned_file_segments :: "world \<Rightarrow> string \<Rightarrow> string \<Rightarrow> string list" where
  "scanned_file_segments w defaults_path dir_path =
     file_segments w (''/'' @ defaults_path) @
     concat (map (\<lambda>n. file_segments w (dir_path @ ''/'' @ n)) (fragment_names w dir_path))"

definition env_segments :: "world \<Rightarrow> string \<Rightarrow> string list" where
  "env_segments w env_var = (case getenv w env_var of None \<Rightarrow> [] | Some v \<Rightarrow> split_on colon v)"

text \<open>A list of non-empty segments without colons.\<close>

definition good :: "string list \<Rightarrow> bool" where
  "good fs = list_all (\<lambda>f. f \<noteq> [] \<and> colon \<notin> set f) fs"

text \<open>
  A system whose fragment file \<open>local\<close> has a line with two directories,
  \<open>/opt/bin:/usr/bin\<close>, and then the line \<open>/opt/bin\<close>.
\<close>

definition w_colons :: world where
  "w_colons =
     \<lparr>fopen = map_of [(''//etc/paths'', text_of [''/usr/bin'']),
                      (''/etc/paths.d/local'', text_of [''/opt/bin:/usr/bin'', ''/opt/bin''])],
      fts_open = map_of [(''/etc/paths.d'', dir_ents ''/etc/paths.d'' [''local''])],
      getenv = Map.empty\<rparr>"

text \<open>
  The calls of \<open>append_path_segment\<close> that a build makes, in program order, each
  with the path it is given, the segment it is given and its return code: the calls
  for the lines of a file, for a list of files, for the fields of the environment
  value (none when the variable is unset or its copy cannot be allocated), and for
  the whole of \<open>construct_path\<close>.  Between calls the state moves as the build moves
  it.
\<close>

type_synonym call = "string option \<times> string option \<times> int"

definition line_call :: "string \<Rightarrow> string option \<times> proc \<Rightarrow> call" where
  "line_call line rs =
     (case read_segment (mem (snd rs)) line of
        (segment, h1) \<Rightarrow>
          (fst rs, map_option c_str segment,
           fst (append_path_segment h1 (fst rs) (map_option c_str segment))))"

definition env_call :: "string \<Rightarrow> string option \<times> proc \<Rightarrow> call" where
  "env_call seg rs =
     (fst rs, Some seg, fst (append_path_segment (mem (snd rs)) (fst rs) (Some seg)))"

fun calls_of ::
    "('a \<Rightarrow> string option \<times> proc \<Rightarrow> call) \<Rightarrow>
     ('a \<Rightarrow> string option \<times> proc \<Rightarrow> string option \<times> proc) \<Rightarrow>
     'a list \<Rightarrow> string option \<times> proc \<Rightarrow> call list" where
  "calls_of c st [] rs = []"
| "calls_of c st (x # xs) rs = c x rs # calls_of c st xs (st x rs)"

definition file_calls :: "world \<Rightarrow> string \<Rightarrow> string \<Rightarrow> string option \<times> proc \<Rightarrow> call list" where
  "file_calls w pfx fname rs =
     (case fopen w (pfx @ ''/'' @ fname) of
        None \<Rightarrow> []
      | Some f \<Rightarrow> calls_of line_call line_step (split_lines f) rs)"

fun files_calls :: "world \<Rightarrow> string \<Rightarrow> string list \<Rightarrow> string option \<times> proc \<Rightarrow> call list" where
  "files_calls w d [] rs = []"
| "files_calls w d (n # ns) rs =
     file_calls w d n rs @ files_calls w d ns (append_path_file w d n rs)"

definition env_calls :: "world \<Rightarrow> string \<Rightarrow> string option \<times> proc \<Rightarrow> call list" where
  "env_calls w env_var rs =
     (case getenv w env_var of
        None \<Rightarrow> []
      | Some v \<Rightarrow>
          (case alloc (mem (snd rs)) of
             (False, h3) \<Rightarrow> []
           | (True, h3) \<Rightarrow>
               calls_of env_call env_step (split_on colon v) (fst rs, (snd rs)\<lparr>mem := h3\<rparr>)))"

definition build_calls :: "world \<Rightarrow> proc \<Rightarrow> string \<Rightarrow> string \<Rightarrow> string \<Rightarrow> call list" where
  "build_calls w s env_var defaults_path dir_path =
     (case fts_open w dir_path of
        None \<Rightarrow> []
      | Some ents \<Rightarrow>
          (case alloc (mem s) of
             (ok, h1) \<Rightarrow>
               let rs0 = (if ok then Some [] else None, s\<lparr>mem := h1\<rparr>);
                   r1 = append_path_file w [] defaults_path rs0;
                   names = fragment_names w dir_path;
                   r2 = fold (append_path_file w dir_path) names r1
               in file_calls w [] defaults_path rs0 @ files_calls w dir_path names r1 @
                  env_calls w env_var r2))"

text \<open>The last part of \<open>construct_path\<close>, from \<open>getenv\<close> on.\<close>

definition env_phase :: "world \<Rightarrow> string \<Rightarrow> string option \<times> proc \<Rightarrow> string option \<times> proc" where
  "env_phase w env_var r2 =
     (case getenv w env_var of
        None \<Rightarrow> r2
      | Some v \<Rightarrow>
          (case alloc (mem (snd r2)) of
             (False, h3) \<Rightarrow> (fst r2, (snd r2)\<lparr>mem := h3\<rparr>)
           | (True, h3) \<Rightarrow> env_loop v (fst r2, (snd r2)\<lparr>mem := h3\<rparr>)))"

section \<open>Properties of append_path_segment\<close>

lemma strstr_le: "strstr s n = Some k \<Longrightarrow> k \<le> length s"
  by (induction s arbitrary: k) (auto split: if_splits)

lemma strstr_Some_prefix: "strstr s n = Some k \<Longrightarrow> prefix n (drop k s)"
  by (induction s arbitrary: k) (auto split: if_splits)

lemma strstr_Some_first: "strstr s n = Some k \<Longrightarrow> j < k \<Longrightarrow> \<not> prefix n (drop j s)"
proof (induction s arbitrary: k j)
  case Nil
  then show ?case by (auto split: if_splits)
next
  case (Cons c cs)
  then show ?case by (cases j) (auto split: if_splits)
qed

lemma strstr_None: "strstr s n = None \<Longrightarrow> j \<le> length s \<Longrightarrow> \<not> prefix n (drop j s)"
proof (induction s arbitrary: j)
  case Nil
  then show ?case by (auto split: if_splits)
next
  case (Cons c cs)
  then show ?case by (cases j) (auto split: if_splits)
qed

lemma strstr_from_Some:
  assumes "strstr_from s st n = Some m"
  shows "st \<le> m \<and> occurs_at s n m \<and> (\<forall>j. st \<le> j \<and> j < m \<longrightarrow> \<not> occurs_at s n j)"
proof -
  from assms obtain k where k: "st \<le> length s" "strstr (drop st s) n = Some k" "m = st + k"
    by (auto simp: strstr_from_def split: if_splits)
  have "k \<le> length s - st" using strstr_le[OF k(2)] by simp
  moreover have "prefix n (drop m s)"
    using strstr_Some_prefix[OF k(2)] k by (simp add: add.commute)
  moreover have "\<not> occurs_at s n j" if "st \<le> j" "j < m" for j
  proof -
    have "j - st < k" using that k by arith
    from strstr_Some_first[OF k(2) this] that show ?thesis by (simp add: occurs_at_def)
  qed
  ultimately show ?thesis using k by (auto simp: occurs_at_def)
qed

lemma strstr_from_None:
  assumes "strstr_from s st n = None" and "st \<le> j"
  shows "\<not> occurs_at s n j"
proof (cases "st \<le> length s \<and> j \<le> length s")
  case True
  then have "strstr (drop st s) n = None" using assms by (simp add: strstr_from_def)
  moreover have "j - st \<le> length (drop st s)" using True assms by (simp add: diff_le_mono)
  ultimately have "\<not> prefix n (drop (j - st) (drop st s))" by (rule strstr_None)
  then show ?thesis using assms by (simp add: occurs_at_def)
next
  case False
  with assms show ?thesis by (auto simp: occurs_at_def)
qed

lemma strstr_from_0: "strstr_from p 0 seg = strstr p seg"
  by (cases "strstr p seg") (simp_all add: strstr_from_def)

text \<open>The loop returns through \<open>return 0\<close> exactly when some occurrence passes its test.\<close>

lemma match_loop_iff:
  "match_loop path seg (strstr_from path st seg) \<longleftrightarrow>
     (\<exists>i\<ge>st. occurs_at path seg i \<and> field_bounded path (length seg) i)"
proof (induction "Suc (length path) - st" arbitrary: st rule: less_induct)
  case less
  show ?case
  proof (cases "strstr_from path st seg")
    case None
    then show ?thesis using strstr_from_None[OF None] by auto
  next
    case (Some m)
    note S = strstr_from_Some[OF Some]
    have mle: "m \<le> length path" using S by (simp add: occurs_at_def)
    show ?thesis
    proof (cases "field_bounded path (length seg) m")
      case True
      then show ?thesis using Some S by auto
    next
      case False
      have "Suc (length path) - (m + 1) < Suc (length path) - st" using S mle by arith
      from less[OF this]
      have IH: "match_loop path seg (strstr_from path (m + 1) seg) \<longleftrightarrow>
         (\<exists>i\<ge>m+1. occurs_at path seg i \<and> field_bounded path (length seg) i)" .
      have "(\<exists>i\<ge>st. occurs_at path seg i \<and> field_bounded path (length seg) i) \<longleftrightarrow>
            (\<exists>i\<ge>m+1. occurs_at path seg i \<and> field_bounded path (length seg) i)"
      proof
        assume "\<exists>i\<ge>st. occurs_at path seg i \<and> field_bounded path (length seg) i"
        then obtain i where i: "i \<ge> st" "occurs_at path seg i"
            "field_bounded path (length seg) i"
          by blast
        have "i \<noteq> m" using i False by auto
        moreover have "\<not> i < m" using S i by auto
        ultimately have "i \<ge> m + 1" by arith
        then show "\<exists>i\<ge>m+1. occurs_at path seg i \<and> field_bounded path (length seg) i"
          using i by blast
      next
        assume "\<exists>i\<ge>m+1. occurs_at path seg i \<and> field_bounded path (length seg) i"
        then obtain i where i: "i \<ge> m+1" "occurs_at path seg i"
            "field_bounded path (length seg) i"
          by blast
        then have "i \<ge> st" using S by arith
        then show "\<exists>i\<ge>st. occurs_at path seg i \<and> field_bounded path (length seg) i"
          using i by blast
      qed
      then show ?thesis using Some False IH by simp
    qed
  qed
qed

lemma prefix_drop_len: "prefix seg (drop i p) \<Longrightarrow> i \<le> length p \<Longrightarrow> i + length seg \<le> length p"
  by (drule prefix_length_le) simp

lemma field_bounded_iff:
  assumes "occurs_at p seg i"
  shows "field_bounded p (length seg) i \<longleftrightarrow>
     (i = 0 \<or> p ! (i - 1) = colon) \<and> (i + length seg = length p \<or> p ! (i + length seg) = colon)"
proof -
  have le: "i + length seg \<le> length p"
    using assms prefix_drop_len by (auto simp: occurs_at_def)
  show ?thesis using le by (auto simp: field_bounded_def peek_def)
qed

lemma seg_present_iff:
  "match_loop p seg (strstr p seg) \<longleftrightarrow> whole_field p seg"
proof -
  have "match_loop p seg (strstr p seg) \<longleftrightarrow>
     (\<exists>i\<ge>0. occurs_at p seg i \<and> field_bounded p (length seg) i)"
    using match_loop_iff[of p seg 0] by (simp add: strstr_from_0)
  also have "\<dots> \<longleftrightarrow> whole_field p seg"
  proof
    assume "\<exists>i\<ge>0. occurs_at p seg i \<and> field_bounded p (length seg) i"
    then obtain i where i: "occurs_at p seg i" "field_bounded p (length seg) i" by blast
    from i(2) field_bounded_iff[OF i(1)] i(1) show "whole_field p seg"
      unfolding whole_field_def occurs_at_def by (intro bexI[of _ i]) auto
  next
    assume "whole_field p seg"
    then obtain i where i: "i \<le> length p" "prefix seg (drop i p)"
        "i = 0 \<or> p ! (i - 1) = colon"
        "i + length seg = length p \<or> p ! (i + length seg) = colon"
      unfolding whole_field_def Bex_def atLeastAtMost_iff by blast
    then have o: "occurs_at p seg i" by (simp add: occurs_at_def)
    from field_bounded_iff[OF o] i o
    show "\<exists>i\<ge>0. occurs_at p seg i \<and> field_bounded p (length seg) i"
      by blast
  qed
  finally show ?thesis .
qed

lemma whole_field_appended:
  "whole_field ((if length p > 0 then p @ [colon] else p) @ seg) seg"
proof (cases "p = []")
  case True
  then show ?thesis by (auto simp: whole_field_def intro!: bexI[of _ 0])
next
  case False
  then show ?thesis
    by (auto simp: whole_field_def nth_append intro!: bexI[of _ "Suc (length p)"])
qed

text \<open>What one call does, case by case.\<close>

lemma append_path_segment_null:
  "append_path_segment h None segment = (- 1, None, h)"
  "append_path_segment h path None = (- 1, path, h)"
  by (auto simp: append_path_segment_def split: option.splits)

lemma append_path_segment_empty:
  "append_path_segment h (Some p) (Some []) = (0, Some p, h)"
  by (simp add: append_path_segment_def)

lemma append_path_segment_present:
  "whole_field p seg \<Longrightarrow> append_path_segment h (Some p) (Some seg) = (0, Some p, h)"
  by (simp add: append_path_segment_def seg_present_iff Let_def)

lemma append_path_segment_fresh:
  assumes "seg \<noteq> []" and "\<not> whole_field p seg"
  shows "append_path_segment h (Some p) (Some seg) =
     (if fst (alloc h)
      then (0, Some ((if p = [] then p else p @ [colon]) @ seg), snd (alloc h))
      else (- 1, None, snd (alloc h)))"
  using assms by (cases "alloc h") (auto simp: append_path_segment_def seg_present_iff Let_def)

text \<open>
  C2.  For every path and every non-empty segment: when the segment occurs in the
  path as a whole colon-delimited field, \<open>append_path_segment\<close> returns 0 and leaves
  the path (and the allocator) as they were; when it does not (it does not occur,
  or only inside a field, as \<open>bin\<close> in \<open>sbin\<close>) and the allocation succeeds, the
  segment is appended, after a colon if the path was not empty.
\<close>

theorem append_path_segment_whole_field:
  assumes "seg \<noteq> []"
  shows "(whole_field p seg \<longrightarrow>
            append_path_segment h (Some p) (Some seg) = (0, Some p, h)) \<and>
         (\<not> whole_field p seg \<and> fst (alloc h) \<longrightarrow>
            append_path_segment h (Some p) (Some seg)
              = (0, Some (if p = [] then seg else p @ [colon] @ seg), snd (alloc h))) \<and>
         \<not> whole_field ''sbin'' ''bin'' \<and>
         append_path_segment [] (Some ''sbin'') (Some ''bin'') = (0, Some ''sbin:bin'', [])"
proof -
  have ex: "append_path_segment [] (Some ''sbin'') (Some ''bin'') = (0, Some ''sbin:bin'', [])"
    by (simp add: append_path_segment_def field_bounded_def peek_def strstr_from_def colon_def)
  then have "\<not> whole_field ''sbin'' ''bin''"
    using append_path_segment_present[of "''sbin''" "''bin''" "[]"] by auto
  then show ?thesis
    using assms ex append_path_segment_present[of p seg h] append_path_segment_fresh[of seg p h]
    by auto
qed

theorem append_path_segment_whole_field_witness:
  "''/usr/bin'' \<noteq> [] \<and> whole_field ''/bin:/usr/bin'' ''/usr/bin'' \<and>
   append_path_segment [] (Some ''/bin:/usr/bin'') (Some ''/usr/bin'')
     = (0, Some ''/bin:/usr/bin'', []) \<and>
   \<not> whole_field ''/usr/sbin'' ''/usr/bin'' \<and> fst (alloc [True]) \<and>
   append_path_segment [True] (Some ''/usr/sbin'') (Some ''/usr/bin'')
     = (0, Some ''/usr/sbin:/usr/bin'', [])"
proof -
  have n: "''/usr/bin'' \<noteq> []" by simp
  have w: "whole_field ''/bin:/usr/bin'' ''/usr/bin''"
    by (auto simp: whole_field_def colon_def intro!: bexI[of _ 5])
  have "append_path_segment [True] (Some ''/usr/sbin'') (Some ''/usr/bin'')
     = (0, Some ''/usr/sbin:/usr/bin'', [])"
    by (simp add: append_path_segment_def field_bounded_def peek_def strstr_from_def colon_def)
  then have nw: "\<not> whole_field ''/usr/sbin'' ''/usr/bin''"
    using append_path_segment_present[of "''/usr/sbin''" "''/usr/bin''" "[True]"] by auto
  from append_path_segment_whole_field[OF n, of "''/bin:/usr/bin''" "[]"] w
  have a: "append_path_segment [] (Some ''/bin:/usr/bin'') (Some ''/usr/bin'')
     = (0, Some ''/bin:/usr/bin'', [])" by simp
  from append_path_segment_whole_field[OF n, of "''/usr/sbin''" "[True]"] nw
  have b: "append_path_segment [True] (Some ''/usr/sbin'') (Some ''/usr/bin'')
     = (0, Some ''/usr/sbin:/usr/bin'', [])" by (simp add: colon_def)
  from n w a nw b show ?thesis by simp
qed

text \<open>
  C8.  Appending the same segment twice leaves the path that appending it once
  leaves, for every path and segment (null or not) and whatever the allocator does.
\<close>

theorem append_path_segment_idempotent:
  "path_after (append_path_segment h2 (path_after (append_path_segment h1 path seg)) seg)
   = path_after (append_path_segment h1 path seg)"
proof (cases path)
  case None
  then show ?thesis by (simp add: append_path_segment_null path_after_def)
next
  case P: (Some p)
  show ?thesis
  proof (cases seg)
    case None
    then show ?thesis using P by (simp add: append_path_segment_null path_after_def)
  next
    case (Some sg)
    show ?thesis
    proof (cases "sg = [] \<or> whole_field p sg")
      case True
      then show ?thesis
        using P Some by (auto simp: append_path_segment_def path_after_def seg_present_iff)
    next
      case False
      then have f: "sg \<noteq> []" "\<not> whole_field p sg" by auto
      show ?thesis
      proof (cases "fst (alloc h1)")
        case True
        have "(if p = [] then p else p @ [colon]) = (if length p > 0 then p @ [colon] else p)"
          by simp
        then have "whole_field ((if p = [] then p else p @ [colon]) @ sg) sg"
          using whole_field_appended[of p sg] by simp
        then show ?thesis
          using P Some True append_path_segment_fresh[OF f, of h1]
          by (simp add: path_after_def append_path_segment_present)
      next
        case False
        then show ?thesis
          using P Some append_path_segment_fresh[OF f, of h1]
          by (simp add: path_after_def append_path_segment_null)
      qed
    qed
  qed
qed

section \<open>Properties of read_segment\<close>

lemma update_fill1:
  "1 \<le> k \<Longrightarrow> (pre @ replicate k z)[length pre := x] = (pre @ [x]) @ replicate (k - 1) z"
  by (cases k) (simp_all add: list_update_append)

lemma update_fill2:
  assumes "2 \<le> k"
  shows "(pre @ replicate k z)[length pre := x, length pre + 1 := y]
         = (pre @ [x, y]) @ replicate (k - 2) z"
proof -
  have "(pre @ replicate k z)[length pre := x] = (pre @ [x]) @ replicate (k - 1) z"
    using assms by (simp add: update_fill1)
  moreover have "((pre @ [x]) @ replicate (k - 1) z)[length (pre @ [x]) := y]
      = ((pre @ [x]) @ [y]) @ replicate (k - 1 - 1) z"
    using assms by (intro update_fill1) simp
  ultimately show ?thesis by (simp add: numeral_2_eq_2)
qed

lemma update_fill_same: "(pre @ replicate k z)[length pre := z] = pre @ replicate k z"
  by (cases k) (simp_all add: list_update_append list_update_beyond)

lemma not_escaped_newline: "\<not> escaped newline"
  by (simp add: escaped_def newline_def dquote_def squote_def dollar_def)

lemma copy_loop_spec:
  assumes "length (sanitize (drop i line)) \<le> k"
  shows "copy_loop line i (length pre) (pre @ replicate k NUL)
         = pre @ sanitize (drop i line) @ replicate (k - length (sanitize (drop i line))) NUL"
  using assms
proof (induction "length line - i" arbitrary: i pre k)
  case 0
  then have "drop i line = []" "\<not> i < length line" by simp_all
  then show ?case by (subst copy_loop.simps) (simp add: sanitize_def)
next
  case (Suc n)
  then have i: "i < length line" by arith
  then have d: "drop i line = line ! i # drop (Suc i) line" by (simp add: Cons_nth_drop_Suc)
  have n: "n = length line - Suc i" using Suc(2) by arith
  let ?c = "line ! i"
  show ?case
  proof (cases "escaped ?c")
    case True
    then have nn: "?c \<noteq> newline" using not_escaped_newline by auto
    have s: "sanitize (drop i line) = backslash # ?c # sanitize (drop (Suc i) line)"
      using True nn by (simp add: d sanitize_def)
    have k2: "2 \<le> k" and k': "length (sanitize (drop (Suc i) line)) \<le> k - 2"
      using Suc(3) s by simp_all
    have "copy_loop line i (length pre) (pre @ replicate k NUL)
      = copy_loop line (Suc i) (length (pre @ [backslash, ?c])) ((pre @ [backslash, ?c]) @ replicate (k - 2) NUL)"
      using i True update_fill2[OF k2, of pre NUL backslash ?c]
      by (subst copy_loop.simps) (simp add: Let_def)
    also have "\<dots> = (pre @ [backslash, ?c]) @ sanitize (drop (Suc i) line)
        @ replicate (k - 2 - length (sanitize (drop (Suc i) line))) NUL"
      using Suc(1)[OF n k'] .
    finally show ?thesis using s by simp
  next
    case False
    show ?thesis
    proof (cases "?c = newline")
      case True
      then have s: "sanitize (drop i line) = []" by (simp add: d sanitize_def)
      have "copy_loop line i (length pre) (pre @ replicate k NUL) = (pre @ replicate k NUL)[length pre := NUL]"
        using i True False by (subst copy_loop.simps) (simp add: Let_def)
      then show ?thesis using s by (simp add: update_fill_same)
    next
      case nn: False
      have s: "sanitize (drop i line) = ?c # sanitize (drop (Suc i) line)"
        using False nn by (simp add: d sanitize_def)
      have k1: "1 \<le> k" and k': "length (sanitize (drop (Suc i) line)) \<le> k - 1"
        using Suc(3) s by simp_all
      have "copy_loop line i (length pre) (pre @ replicate k NUL)
        = copy_loop line (Suc i) (length (pre @ [?c])) ((pre @ [?c]) @ replicate (k - 1) NUL)"
        using i False nn update_fill1[OF k1, of pre NUL ?c]
        by (subst copy_loop.simps) (simp add: Let_def)
      also have "\<dots> = (pre @ [?c]) @ sanitize (drop (Suc i) line)
          @ replicate (k - 1 - length (sanitize (drop (Suc i) line))) NUL"
        using Suc(1)[OF n k'] .
      finally show ?thesis using s by simp
    qed
  qed
qed

lemma length_escape_all: "length (escape_all s) = length s + count_escapes s"
  by (induction s) simp_all

lemma count_escapes_takeWhile: "count_escapes (takeWhile P s) \<le> count_escapes s"
  by (induction s) simp_all

lemma length_sanitize_le: "length (sanitize line) \<le> length line + count_escapes line"
  unfolding sanitize_def length_escape_all
  using count_escapes_takeWhile[of "\<lambda>c. c \<noteq> newline" line] length_takeWhile_le[of "\<lambda>c. c \<noteq> newline" line]
  by (rule add_mono[rotated])

lemma read_segment_ok:
  assumes "fst (alloc h)"
  shows "read_segment h line =
    (Some (sanitize line @ replicate (Suc (length line + count_escapes line) - length (sanitize line)) NUL),
     snd (alloc h))"
proof -
  have "length (sanitize (drop 0 line)) \<le> length line + count_escapes line + 1"
    using length_sanitize_le[of line] by simp
  from copy_loop_spec[OF this, of "[]"] show ?thesis
    using assms by (cases "alloc h") (simp add: read_segment_def Let_def)
qed

lemma read_segment_fail: "\<not> fst (alloc h) \<Longrightarrow> read_segment h line = (None, snd (alloc h))"
  by (cases "alloc h") (simp add: read_segment_def Let_def)

lemma c_str_fill: "NUL \<notin> set s \<Longrightarrow> c_str (s @ replicate (Suc n) NUL) = s"
  by (induction s) (auto simp: c_str_def)

lemma set_escape_all: "set (escape_all s) \<subseteq> insert backslash (set s)"
  by (induction s) auto

lemma nul_sanitize: "NUL \<notin> set line \<Longrightarrow> NUL \<notin> set (sanitize line)"
  using set_escape_all[of "takeWhile (\<lambda>c. c \<noteq> newline) line"] set_takeWhileD[of NUL "\<lambda>c. c \<noteq> newline" line]
  by (auto simp: sanitize_def NUL_def backslash_def)

lemma sanitize_example: "sanitize raw_example = sanitized_example"
  by (simp add: sanitize_def raw_example_def sanitized_example_def escaped_def
      squote_def dquote_def dollar_def newline_def backslash_def)

lemma read_segment_c_str:
  assumes "fst (alloc h)" and "NUL \<notin> set l"
  shows "map_option c_str (fst (read_segment h l)) = Some (sanitize l)"
proof -
  have "Suc (length l + count_escapes l) - length (sanitize l)
      = Suc (length l + count_escapes l - length (sanitize l))"
    using length_sanitize_le[of l] by arith
  then show ?thesis
    using read_segment_ok[OF assms(1), of l] c_str_fill[OF nul_sanitize[OF assms(2)]] by simp
qed

text \<open>
  C6.  When its allocation succeeds, \<open>read_segment\<close> returns a buffer that holds the
  sanitized line (a backslash before every double quote, single quote and dollar
  sign, the copy stopped before the first newline or at the end of the input),
  followed by NUL bytes, at least one.  For a line without NUL bytes the C string
  in the buffer is the sanitized line; the empty input gives the empty segment, and
  \<^verbatim>\<open>it's a "test" $HOME\<close> with its newline gives \<^verbatim>\<open>it\'s a \"test\" \$HOME\<close>.
\<close>

theorem read_segment_sanitizes:
  assumes "fst (alloc h)"
  shows "fst (read_segment h line) =
           Some (sanitize line @
                 replicate (Suc (length line + count_escapes line) - length (sanitize line)) NUL) \<and>
         length (sanitize line) \<le> length line + count_escapes line \<and>
         (NUL \<notin> set line \<longrightarrow> map_option c_str (fst (read_segment h line)) = Some (sanitize line)) \<and>
         map_option c_str (fst (read_segment h [])) = Some [] \<and>
         map_option c_str (fst (read_segment h raw_example)) = Some sanitized_example"
proof (intro conjI impI)
  show "fst (read_segment h line) =
           Some (sanitize line @
                 replicate (Suc (length line + count_escapes line) - length (sanitize line)) NUL)"
    by (simp add: read_segment_ok[OF assms])
  show "length (sanitize line) \<le> length line + count_escapes line"
    by (rule length_sanitize_le)
  show "map_option c_str (fst (read_segment h line)) = Some (sanitize line)" if "NUL \<notin> set line"
    using assms that by (rule read_segment_c_str)
  have "sanitize [] = []" by (simp add: sanitize_def)
  then show "map_option c_str (fst (read_segment h [])) = Some []"
    using read_segment_c_str[OF assms, of "[]"] by simp
  have "NUL \<notin> set raw_example"
    by (simp add: raw_example_def NUL_def squote_def dquote_def newline_def)
  then show "map_option c_str (fst (read_segment h raw_example)) = Some sanitized_example"
    using read_segment_c_str[OF assms, of raw_example] sanitize_example by simp
qed

theorem read_segment_sanitizes_witness:
  "fst (alloc []) \<and> NUL \<notin> set (''a$b'' @ [newline] @ ''c'') \<and>
   map_option c_str (fst (read_segment [] (''a$b'' @ [newline] @ ''c'')))
     = Some (''a'' @ [backslash] @ ''$b'')"
proof -
  have a: "fst (alloc [])" by simp
  have n: "NUL \<notin> set (''a$b'' @ [newline] @ ''c'')" by (simp add: NUL_def newline_def)
  have s: "sanitize (''a$b'' @ [newline] @ ''c'') = ''a'' @ [backslash] @ ''$b''"
    by (simp add: sanitize_def escaped_def squote_def dquote_def dollar_def newline_def backslash_def)
  from read_segment_sanitizes[OF a, of "''a$b'' @ [newline] @ ''c''"] n
  have "map_option c_str (fst (read_segment [] (''a$b'' @ [newline] @ ''c'')))
     = Some (sanitize (''a$b'' @ [newline] @ ''c''))" by blast
  then have "map_option c_str (fst (read_segment [] (''a$b'' @ [newline] @ ''c'')))
     = Some (''a'' @ [backslash] @ ''$b'')" by (simp only: s)
  with a n show ?thesis by blast
qed

section \<open>The loops as folds\<close>

lemma fgetln_Nil: "fgetln [] = None"
  by (simp add: fgetln_def)

lemma fgetln_newline: "fgetln (newline # cs) = Some ([newline], cs)"
  by (simp add: fgetln_def)

lemma fgetln_last: "c \<noteq> newline \<Longrightarrow> fgetln [c] = Some ([c], [])"
  by (simp add: fgetln_def)

lemma fgetln_Cons:
  assumes "c \<noteq> newline" and "cs \<noteq> []"
  shows "fgetln (c # cs) = map_option (\<lambda>(l, r). (c # l, r)) (fgetln cs)"
  using assms
  by (cases "dropWhile (\<lambda>c. c \<noteq> newline) cs")
     (simp_all add: fgetln_def del: dropWhile_eq_Nil_conv)

lemma fgetln_split_lines:
  "fgetln f = Some (line, f') \<Longrightarrow> split_lines f = line # split_lines f'"
proof (induction f arbitrary: line f')
  case Nil
  then show ?case by (simp add: fgetln_Nil)
next
  case (Cons c cs)
  show ?case
  proof (cases "c = newline")
    case True
    with Cons.prems show ?thesis by (simp add: fgetln_newline)
  next
    case False
    show ?thesis
    proof (cases "cs = []")
      case True
      with Cons.prems False show ?thesis by (auto simp: fgetln_last)
    next
      case ne: False
      from Cons.prems fgetln_Cons[OF False ne]
      obtain l where l: "fgetln cs = Some (l, f')" "line = c # l"
        by (cases "fgetln cs") auto
      from Cons.IH[OF l(1)] l(2) False show ?thesis by simp
    qed
  qed
qed

lemma fgetln_None: "fgetln f = None \<Longrightarrow> f = []"
  by (cases "dropWhile (\<lambda>c. c \<noteq> newline) f")
     (auto simp: fgetln_def simp del: dropWhile_eq_Nil_conv split: if_splits)

lemma fgetln_shorter: "fgetln f = Some (line, f') \<Longrightarrow> length f' < length f"
proof -
  assume a: "fgetln f = Some (line, f')"
  have "length (dropWhile (\<lambda>c. c \<noteq> newline) f) \<le> length f" by (rule length_dropWhile_le)
  with a show ?thesis
    by (cases "dropWhile (\<lambda>c. c \<noteq> newline) f")
       (auto simp: fgetln_def simp del: dropWhile_eq_Nil_conv split: if_splits)
qed

lemma file_loop_fold: "file_loop f rs = fold line_step (split_lines f) rs"
proof (induction "length f" arbitrary: f rs rule: less_induct)
  case less
  obtain result s where rs: "rs = (result, s)" by (cases rs)
  show ?case
  proof (cases "fgetln f")
    case None
    then have "f = []" by (rule fgetln_None)
    then show ?thesis unfolding rs by (subst file_loop.simps) (simp add: fgetln_Nil)
  next
    case (Some lf)
    obtain line f' where lf: "lf = (line, f')" by (cases lf)
    have sh: "length f' < length f" using Some lf fgetln_shorter by simp
    have sp: "split_lines f = line # split_lines f'" using Some lf fgetln_split_lines by simp
    have "file_loop f (result, s) = file_loop f' (line_step line (result, s))"
      using Some lf
      by (subst file_loop.simps) (simp add: line_step_def split: prod.splits)
    then show ?thesis unfolding rs using less[OF sh] sp by simp
  qed
qed

lemma strchr_None: "strchr s c = None \<Longrightarrow> split_on c s = [s]"
  by (induction s) (auto split: if_splits)

lemma strchr_Some:
  "strchr s c = Some k \<Longrightarrow> split_on c s = take k s # split_on c (drop (Suc k) s) \<and> k < length s"
proof (induction s arbitrary: k)
  case Nil
  then show ?case by simp
next
  case (Cons x xs)
  show ?case
  proof (cases "x = c")
    case True
    with Cons.prems show ?thesis by simp
  next
    case False
    with Cons.prems obtain k' where k': "strchr xs c = Some k'" "k = Suc k'" by auto
    from Cons.IH[OF k'(1)] k'(2) False show ?thesis by simp
  qed
qed

lemma env_loop_fold: "env_loop v rs = fold env_step (split_on colon v) rs"
proof (induction "length v" arbitrary: v rs rule: less_induct)
  case less
  obtain result s where rs: "rs = (result, s)" by (cases rs)
  show ?case
  proof (cases "strchr v colon")
    case None
    then show ?thesis unfolding rs
      by (subst env_loop.simps) (simp add: strchr_None env_step_def split: prod.splits)
  next
    case (Some k)
    note K = strchr_Some[OF Some]
    have sh: "length (drop (k + 1) v) < length v" using K by (cases v) simp_all
    have "env_loop v (result, s) = env_loop (drop (k + 1) v) (env_step (take k v) (result, s))"
      using Some by (subst env_loop.simps) (simp add: env_step_def split: prod.splits)
    then show ?thesis unfolding rs using less[OF sh] K by simp
  qed
qed

section \<open>Null paths and standard error\<close>

subsection \<open>A null path stays null\<close>

lemma line_step_null: "fst (line_step line (None, s)) = None"
  by (simp add: line_step_def append_path_segment_null split: prod.splits)

lemma fold_line_step_null: "fst rs = None \<Longrightarrow> fst (fold line_step ls rs) = None"
proof (induction ls arbitrary: rs)
  case Nil
  then show ?case by simp
next
  case (Cons l ls)
  obtain r s where rs: "rs = (r, s)" by (cases rs)
  with Cons.prems have "fst (line_step l rs) = None" by (simp add: line_step_null)
  then show ?case using Cons.IH by simp
qed

lemma append_path_file_null: "fst rs = None \<Longrightarrow> fst (append_path_file w pfx fname rs) = None"
  by (simp add: append_path_file_def Let_def file_loop_fold fold_line_step_null split: option.splits)

lemma fold_append_path_file_null:
  "fst rs = None \<Longrightarrow> fst (fold (append_path_file w d) names rs) = None"
  by (induction names arbitrary: rs) (simp_all add: append_path_file_null)

lemma env_step_null: "fst rs = None \<Longrightarrow> fst (env_step seg rs) = None"
  by (cases rs) (simp add: env_step_def append_path_segment_null)

lemma env_loop_null: "fst rs = None \<Longrightarrow> fst (env_loop v rs) = None"
proof -
  have "fst rs = None \<Longrightarrow> fst (fold env_step segs rs) = None" for segs
    by (induction segs arbitrary: rs) (simp_all add: env_step_null)
  then show "fst rs = None \<Longrightarrow> fst (env_loop v rs) = None" by (simp add: env_loop_fold)
qed

subsection \<open>Standard error\<close>

lemma err_line_step: "err (snd (line_step line rs)) = err (snd rs)"
  by (simp add: line_step_def split: prod.splits)

lemma err_fold_line_step: "err (snd (fold line_step ls rs)) = err (snd rs)"
  by (induction ls arbitrary: rs) (simp_all add: err_line_step)

lemma err_append_path_file:
  "\<exists>ps. err (snd (append_path_file w pfx fname rs)) = err (snd rs) @ map Perror ps"
proof (cases "fopen w (pfx @ ''/'' @ fname)")
  case None
  then have "err (snd (append_path_file w pfx fname rs))
      = err (snd rs) @ map Perror [pfx @ ''/'' @ fname]"
    by (simp add: append_path_file_def Let_def)
  then show ?thesis by blast
next
  case (Some f)
  then have "err (snd (append_path_file w pfx fname rs)) = err (snd rs) @ map Perror []"
    by (simp add: append_path_file_def Let_def file_loop_fold err_fold_line_step)
  then show ?thesis by blast
qed

lemma err_fold_append_path_file:
  "\<exists>ps. err (snd (fold (append_path_file w d) names rs)) = err (snd rs) @ map Perror ps"
proof (induction names arbitrary: rs)
  case Nil
  have "err (snd rs) = err (snd rs) @ map Perror []" by simp
  then show ?case by (simp del: append_Nil2) 
next
  case (Cons n names)
  from Cons.IH[of "append_path_file w d n rs"] obtain ps where
    ps: "err (snd (fold (append_path_file w d) names (append_path_file w d n rs)))
          = err (snd (append_path_file w d n rs)) @ map Perror ps" by blast
  from err_append_path_file[of w d n rs] obtain qs where
    qs: "err (snd (append_path_file w d n rs)) = err (snd rs) @ map Perror qs" by blast
  have "err (snd (fold (append_path_file w d) (n # names) rs)) = err (snd rs) @ map Perror (qs @ ps)"
    using ps qs by simp
  then show ?case by blast
qed

lemma err_env_step: "err (snd (env_step seg rs)) = err (snd rs)"
  by (simp add: env_step_def split: prod.splits)

lemma err_env_loop: "err (snd (env_loop v rs)) = err (snd rs)"
proof -
  have "err (snd (fold env_step segs rs)) = err (snd rs)" for segs
    by (induction segs arbitrary: rs) (simp_all add: err_env_step)
  then show ?thesis by (simp add: env_loop_fold)
qed

lemma err_construct_path:
  "\<exists>ps. err (snd (construct_path w s env_var defaults_path dir_path)) = err s @ map Perror ps"
proof (cases "fts_open w dir_path")
  case None
  then have "err (snd (construct_path w s env_var defaults_path dir_path))
      = err s @ map Perror [dir_path]"
    by (simp add: construct_path_def split: prod.splits)
  then show ?thesis by blast
next
  case (Some ents)
  obtain ok h1 where a: "alloc (mem s) = (ok, h1)" by (cases "alloc (mem s)")
  define r1 where "r1 = append_path_file w [] defaults_path (if ok then Some [] else None, s\<lparr>mem := h1\<rparr>)"
  define r2 where "r2 = fold (append_path_file w dir_path)
      (strs (strlist_sort (fts_loop ents strlist_init))) r1"
  from err_append_path_file[of w "[]" defaults_path "(if ok then Some [] else None, s\<lparr>mem := h1\<rparr>)"]
  obtain ps where ps: "err (snd r1) = err s @ map Perror ps" unfolding r1_def by auto
  from err_fold_append_path_file[of w dir_path _ r1]
  obtain qs where qs: "err (snd r2) = err (snd r1) @ map Perror qs" unfolding r2_def by blast
  have "err (snd (construct_path w s env_var defaults_path dir_path)) = err (snd r2)"
    using Some a
    by (simp add: construct_path_def Let_def r1_def r2_def err_env_loop
        split: option.splits prod.splits bool.splits)
  then have "err (snd (construct_path w s env_var defaults_path dir_path))
      = err s @ map Perror (ps @ qs)" using ps qs by simp
  then show ?thesis by blast
qed

lemma strstr_sublist: "strstr s n \<noteq> None \<longleftrightarrow> sublist n s"
proof
  assume "strstr s n \<noteq> None"
  then obtain k where k: "strstr s n = Some k" by auto
  from strstr_Some_prefix[OF k] obtain r where "drop k s = n @ r" by (auto simp: prefix_def)
  then have "s = take k s @ n @ r" by (metis append_take_drop_id)
  then show "sublist n s" unfolding sublist_def by blast
next
  assume "sublist n s"
  then obtain ps ss where s: "s = ps @ n @ ss" unfolding sublist_def by blast
  then have "prefix n (drop (length ps) s)" "length ps \<le> length s" by simp_all
  then show "strstr s n \<noteq> None" using strstr_None[of s n "length ps"] by auto
qed

section \<open>Failures\<close>

text \<open>
  C3 (as amended).  When \<open>fts_open\<close> returns \<open>NULL\<close> for the fragment directory,
  \<open>construct_path\<close> writes the \<open>perror\<close> message for the directory path to standard
  error and returns \<open>NULL\<close>; no file is read, and the state changes by the message
  and the one allocation made before.  An empty directory gives a path instead.
\<close>

theorem construct_path_dir_unavailable:
  assumes "fts_open w dir_path = None"
  shows "construct_path w s env_var defaults_path dir_path
         = (None, s\<lparr>mem := snd (alloc (mem s)), err := err s @ [Perror dir_path]\<rparr>)"
  using assms by (cases "alloc (mem s)") (simp add: construct_path_def)

theorem construct_path_dir_unavailable_witness:
  "fts_open w_fts_null ''/etc/paths.d'' = None \<and>
   construct_path w_fts_null s0 ''PATH'' ''/etc/paths'' ''/etc/paths.d''
     = (None, s0\<lparr>err := [Perror ''/etc/paths.d'']\<rparr>) \<and>
   construct_path w_emptydir s0 ''PATH'' ''/etc/paths'' ''/etc/paths.d''
     = (Some ''/usr/bin:/bin'', s0)"
proof -
  have f: "fts_open w_fts_null ''/etc/paths.d'' = None" by (simp add: w_fts_null_def)
  have e: "construct_path w_emptydir s0 ''PATH'' ''/etc/paths'' ''/etc/paths.d''
     = (Some ''/usr/bin:/bin'', s0)" by code_simp
  from construct_path_dir_unavailable[OF f, of s0 "''PATH''" "''/etc/paths''"] f e
  show ?thesis by (simp add: s0_def)
qed

text \<open>
  C3 as stated fails, in two ways.  A fragment directory that is missing, or that
  cannot be read, does not stop the build: the loop passes over the \<open>FTS_NS\<close> and
  \<open>FTS_DNR\<close> entries as over any entry that is not a regular file, nothing is
  written to standard error, and the path is the one an empty directory gives.
  And when \<open>fts_open\<close> does return \<open>NULL\<close>, \<open>main\<close> goes on to \<open>printf\<close> with the null
  pointer and returns 0.
\<close>

theorem dir_unavailable_counterexample:
  "construct_path w_missing s0 ''PATH'' ''/etc/paths'' ''/etc/paths.d''
     = (Some ''/usr/bin:/bin'', s0) \<and>
   construct_path w_unreadable s0 ''PATH'' ''/etc/paths'' ''/etc/paths.d''
     = (Some ''/usr/bin:/bin'', s0) \<and>
   construct_path w_emptydir s0 ''PATH'' ''/etc/paths'' ''/etc/paths.d''
     = (Some ''/usr/bin:/bin'', s0) \<and>
   err s0 = [] \<and>
   main w_missing s0 [''path_helper'']
     = (0, [(fmt_export ''PATH'', Some ''/usr/bin:/bin'')], s0) \<and>
   \<not> (fts_open w_fts_null ''/etc/paths.d'' = None \<longrightarrow>
        fst (main w_fts_null s0 [''path_helper'']) \<noteq> 0)"
proof -
  have 1: "construct_path w_missing s0 ''PATH'' ''/etc/paths'' ''/etc/paths.d''
     = (Some ''/usr/bin:/bin'', s0)" by code_simp
  have 2: "construct_path w_unreadable s0 ''PATH'' ''/etc/paths'' ''/etc/paths.d''
     = (Some ''/usr/bin:/bin'', s0)" by code_simp
  have 3: "construct_path w_emptydir s0 ''PATH'' ''/etc/paths'' ''/etc/paths.d''
     = (Some ''/usr/bin:/bin'', s0)" by code_simp
  have 4: "err s0 = []" by (simp add: s0_def)
  have 5: "main w_missing s0 [''path_helper'']
     = (0, [(fmt_export ''PATH'', Some ''/usr/bin:/bin'')], s0)" by code_simp
  have "fts_open w_fts_null ''/etc/paths.d'' = None" by (simp add: w_fts_null_def)
  moreover have "main w_fts_null s0 [''path_helper'']
     = (0, [(fmt_export ''PATH'', None)], s0\<lparr>err := [Perror ''/etc/paths.d'']\<rparr>)"
    by code_simp
  ultimately have 6: "\<not> (fts_open w_fts_null ''/etc/paths.d'' = None \<longrightarrow>
        fst (main w_fts_null s0 [''path_helper'']) \<noteq> 0)" by simp
  from 1 2 3 4 5 6 show ?thesis by blast
qed

text \<open>
  C5 (as amended).  When \<open>reallocf\<close> fails in \<open>append_path_segment\<close> (the segment is
  not empty and not yet a field of the path), the call returns -1 and the caller's
  path is \<open>NULL\<close>: the old buffer is gone, nothing partial is left.
\<close>

theorem append_path_segment_alloc_failure:
  assumes "seg \<noteq> []" and "\<not> whole_field p seg" and "\<not> fst (alloc h)"
  shows "append_path_segment h (Some p) (Some seg) = (- 1, None, snd (alloc h))"
  using assms append_path_segment_fresh[of seg p h] by simp

theorem append_path_segment_alloc_failure_witness:
  "''/usr/bin'' \<noteq> [] \<and> \<not> whole_field ''/bin'' ''/usr/bin'' \<and> \<not> fst (alloc [False]) \<and>
   append_path_segment [False] (Some ''/bin'') (Some ''/usr/bin'') = (- 1, None, [])"
proof -
  have n: "''/usr/bin'' \<noteq> []" by simp
  have a: "\<not> fst (alloc [False])" by simp
  have "append_path_segment [True] (Some ''/bin'') (Some ''/usr/bin'') = (0, Some ''/bin:/usr/bin'', [])"
    by code_simp
  then have w: "\<not> whole_field ''/bin'' ''/usr/bin''"
    using append_path_segment_present[of "''/bin''" "''/usr/bin''" "[True]"] by auto
  from append_path_segment_alloc_failure[OF n w a] n w a show ?thesis by simp
qed

text \<open>C5 as stated fails: the path is not left as it was.\<close>

theorem append_not_atomic_counterexample:
  "\<not> (\<not> fst (alloc [False]) \<longrightarrow>
      path_after (append_path_segment [False] (Some ''/bin'') (Some ''/usr/bin'')) = Some ''/bin'')"
proof -
  have "append_path_segment [False] (Some ''/bin'') (Some ''/usr/bin'') = (- 1, None, [])"
    by code_simp
  then show ?thesis by (simp add: path_after_def)
qed

section \<open>Properties of main\<close>

lemma main_exit_status: "fst (main w s argv) = (if length argv > 2 then 1 else 0)"
  by (simp add: main_def Let_def)

lemma main_usage:
  assumes "length argv \<le> 2" and "Usage \<in> set (err (snd (snd (main w s argv))))"
  shows "Usage \<in> set (err s)"
proof -
  define p where "p = construct_path w s ''PATH'' ''/etc/paths'' ''/etc/paths.d''"
  define m where "m = (if getenv w ''MANPATH'' \<noteq> None
     then construct_path w (snd p) ''MANPATH'' ''/etc/manpaths'' ''/etc/manpaths.d''
     else (None, snd p))"
  have fin: "snd (snd (main w s argv)) = snd m"
    using assms(1) by (simp add: main_def Let_def p_def m_def)
  obtain ps where ps: "err (snd p) = err s @ map Perror ps"
    unfolding p_def using err_construct_path by blast
  obtain qs where qs: "err (snd m) = err (snd p) @ map Perror qs"
  proof (cases "getenv w ''MANPATH'' \<noteq> None")
    case True
    from err_construct_path[of w "snd p" "''MANPATH''" "''/etc/manpaths''" "''/etc/manpaths.d''"]
    obtain qs' where "err (snd (construct_path w (snd p) ''MANPATH'' ''/etc/manpaths''
        ''/etc/manpaths.d'')) = err (snd p) @ map Perror qs'" by blast
    then have "err (snd m) = err (snd p) @ map Perror qs'" using True unfolding m_def by simp
    then show ?thesis using that by blast
  next
    case False
    then have "err (snd m) = err (snd p) @ map Perror []" unfolding m_def by simp
    then show ?thesis using that by blast
  qed
  from assms(2) fin ps qs show ?thesis by auto
qed

lemma main_formats:
  assumes "length argv = 2" and "argv ! 1 \<noteq> ''-c''" and "argv ! 1 \<noteq> ''-s''"
  shows "map fst (fst (snd (main w s argv)))
         = map (if csh_shell w then fmt_setenv else fmt_export)
               (''PATH'' # (if getenv w ''MANPATH'' = None then [] else [''MANPATH'']))"
proof (cases "getenv w ''SHELL''")
  case None
  then show ?thesis using assms by (simp add: main_def Let_def csh_shell_def)
next
  case (Some shell)
  show ?thesis
  proof (cases "strstr shell ''csh''")
    case None
    then have "\<not> sublist ''csh'' shell" using strstr_sublist[of shell "''csh''"] by simp
    then show ?thesis using assms Some None by (simp add: main_def Let_def csh_shell_def)
  next
    case S: (Some k)
    then have "sublist ''csh'' shell" using strstr_sublist[of shell "''csh''"] by simp
    then show ?thesis using assms Some S by (simp add: main_def Let_def csh_shell_def)
  qed
qed

lemma main_style:
  assumes "length argv \<le> 2"
    and "length argv = 2 \<longrightarrow> argv ! 1 \<noteq> ''-c'' \<and> argv ! 1 \<noteq> ''-s''"
  shows "main w s argv = normal_run w s"
proof (cases "getenv w ''SHELL''")
  case None
  then show ?thesis using assms by (auto simp: main_def normal_run_def Let_def csh_shell_def)
next
  case (Some shell)
  show ?thesis
  proof (cases "strstr shell ''csh''")
    case None
    then have "\<not> sublist ''csh'' shell" using strstr_sublist[of shell "''csh''"] by simp
    then show ?thesis
      using assms Some None by (auto simp: main_def normal_run_def Let_def csh_shell_def)
  next
    case S: (Some k)
    then have "sublist ''csh'' shell" using strstr_sublist[of shell "''csh''"] by simp
    then show ?thesis
      using assms Some S by (auto simp: main_def normal_run_def Let_def csh_shell_def)
  qed
qed

text \<open>
  C10.  With exactly one argument that is neither \<open>-c\<close> nor \<open>-s\<close>, \<open>main\<close> proceeds
  normally: its whole run (exit status, \<open>printf\<close> calls with the paths built, final
  state) is the run without a flag, which is the run with no argument at all; it
  returns 0, writes no usage message, and prints in the style chosen by whether
  \<open>SHELL\<close> contains \<open>csh\<close>.  For any argument vector \<open>args\<close>, the exit status is
  non-zero exactly when there are more than two entries (more than one argument),
  and then the run is the usage message alone.
\<close>

theorem main_usage_only_for_extra_arguments:
  assumes "length argv = 2" and "argv ! 1 \<noteq> ''-c''" and "argv ! 1 \<noteq> ''-s''"
  shows "fst (main w s argv) = 0 \<and>
         (Usage \<in> set (err (snd (snd (main w s argv)))) \<longrightarrow> Usage \<in> set (err s)) \<and>
         map fst (fst (snd (main w s argv)))
           = map (if csh_shell w then fmt_setenv else fmt_export)
                 (''PATH'' # (if getenv w ''MANPATH'' = None then [] else [''MANPATH''])) \<and>
         (fst (main w s args) \<noteq> 0 \<longleftrightarrow> length args > 2) \<and>
         (length args > 2 \<longrightarrow> main w s args = (1, [], s\<lparr>err := err s @ [Usage]\<rparr>)) \<and>
         main w s argv = normal_run w s \<and>
         main w s argv = main w s [argv ! 0]"
proof (intro conjI impI)
  show "fst (main w s argv) = 0" using assms(1) by (simp add: main_exit_status)
  show "Usage \<in> set (err s)" if "Usage \<in> set (err (snd (snd (main w s argv))))"
    using main_usage[of argv w s] assms(1) that by simp
  show "map fst (fst (snd (main w s argv)))
           = map (if csh_shell w then fmt_setenv else fmt_export)
                 (''PATH'' # (if getenv w ''MANPATH'' = None then [] else [''MANPATH'']))"
    using assms by (rule main_formats)
  show "fst (main w s args) \<noteq> 0 \<longleftrightarrow> length args > 2" by (simp add: main_exit_status)
  show "main w s args = (1, [], s\<lparr>err := err s @ [Usage]\<rparr>)" if "length args > 2"
    using that by (simp add: main_def Let_def)
  show n: "main w s argv = normal_run w s"
    using assms by (intro main_style) simp_all
  have "main w s [argv ! 0] = normal_run w s" by (intro main_style) simp_all
  with n show "main w s argv = main w s [argv ! 0]" by simp
qed

theorem main_usage_only_for_extra_arguments_witness:
  "length [''path_helper'', ''-x''] = 2 \<and> [''path_helper'', ''-x''] ! 1 \<noteq> ''-c'' \<and>
   [''path_helper'', ''-x''] ! 1 \<noteq> ''-s'' \<and> csh_shell w_tcsh \<and>
   fst (main w_tcsh s0 [''path_helper'', ''-x'']) = 0 \<and>
   Usage \<notin> set (err (snd (snd (main w_tcsh s0 [''path_helper'', ''-x''])))) \<and>
   map fst (fst (snd (main w_tcsh s0 [''path_helper'', ''-x'']))) = [fmt_setenv ''PATH''] \<and>
   map fst (fst (snd (main w_example s0 [''path_helper'', ''-x'']))) = [fmt_export ''PATH''] \<and>
   main w_tcsh s0 [''path_helper'', ''-x'']
     = (0, [(fmt_setenv ''PATH'', Some ''/usr/bin:/bin:/usr/local/bin'')], s0) \<and>
   main w_tcsh s0 [''path_helper''] = main w_tcsh s0 [''path_helper'', ''-x'']"
proof -
  have a: "length [''path_helper'', ''-x''] = 2" "[''path_helper'', ''-x''] ! 1 \<noteq> ''-c''"
       "[''path_helper'', ''-x''] ! 1 \<noteq> ''-s''" by simp_all
  have "''/bin/tcsh'' = ''/bin/t'' @ ''csh'' @ []" by simp
  then have "sublist ''csh'' ''/bin/tcsh''" unfolding sublist_def by blast
  then have c: "csh_shell w_tcsh" by (simp add: csh_shell_def w_tcsh_def)
  have nc: "\<not> csh_shell w_example" by (simp add: csh_shell_def w_example_def)
  have m: "getenv w_tcsh ''MANPATH'' = None" "getenv w_example ''MANPATH'' = None"
    by (simp_all add: w_tcsh_def w_example_def)
  have u: "Usage \<notin> set (err s0)" by (simp add: s0_def)
  have p: "construct_path w_tcsh s0 ''PATH'' ''/etc/paths'' ''/etc/paths.d''
      = (Some ''/usr/bin:/bin:/usr/local/bin'', s0)" by code_simp
  have n: "normal_run w_tcsh s0
      = (0, [(fmt_setenv ''PATH'', Some ''/usr/bin:/bin:/usr/local/bin'')], s0)"
    using c m(1) p by (simp add: normal_run_def Let_def)
  note T = main_usage_only_for_extra_arguments[OF a, of w_tcsh s0]
  note E = main_usage_only_for_extra_arguments[OF a, of w_example s0]
  have 1: "fst (main w_tcsh s0 [''path_helper'', ''-x'']) = 0" using T by blast
  have 2: "Usage \<notin> set (err (snd (snd (main w_tcsh s0 [''path_helper'', ''-x'']))))"
    using T u by blast
  from T have "map fst (fst (snd (main w_tcsh s0 [''path_helper'', ''-x''])))
      = map (if csh_shell w_tcsh then fmt_setenv else fmt_export)
            (''PATH'' # (if getenv w_tcsh ''MANPATH'' = None then [] else [''MANPATH'']))"
    by blast
  then have 3: "map fst (fst (snd (main w_tcsh s0 [''path_helper'', ''-x'']))) = [fmt_setenv ''PATH'']"
    using c m(1) by simp
  from E have "map fst (fst (snd (main w_example s0 [''path_helper'', ''-x''])))
      = map (if csh_shell w_example then fmt_setenv else fmt_export)
            (''PATH'' # (if getenv w_example ''MANPATH'' = None then [] else [''MANPATH'']))"
    by blast
  then have 4: "map fst (fst (snd (main w_example s0 [''path_helper'', ''-x'']))) = [fmt_export ''PATH'']"
    using nc m(2) by simp
  from T have "main w_tcsh s0 [''path_helper'', ''-x''] = normal_run w_tcsh s0" by blast
  then have 5: "main w_tcsh s0 [''path_helper'', ''-x'']
     = (0, [(fmt_setenv ''PATH'', Some ''/usr/bin:/bin:/usr/local/bin'')], s0)"
    using n by simp
  from T have "main w_tcsh s0 [''path_helper'', ''-x'']
      = main w_tcsh s0 (([''path_helper'', ''-x''] ! 0) # [])" by blast
  then have 6: "main w_tcsh s0 [''path_helper''] = main w_tcsh s0 [''path_helper'', ''-x'']"
    by simp
  from a c 1 2 3 4 5 6 show ?thesis by blast
qed

section \<open>Properties of the sort\<close>

lemma tolower_0: "tolower c = 0 \<longleftrightarrow> c = NUL"
proof -
  have "(of_char c :: nat) = of_char NUL \<longleftrightarrow> c = NUL" by (rule of_char_eq_iff)
  then show ?thesis by (auto simp: tolower_def Let_def NUL_def)
qed

lemma strcasecmp_le:
  "NUL \<notin> set a \<Longrightarrow> NUL \<notin> set b \<Longrightarrow>
   strcasecmp a b \<le> 0 \<longleftrightarrow> map tolower a \<le> map tolower b"
proof (induction a b rule: strcasecmp.induct)
  case 1
  then show ?case by simp
next
  case (2 b bs)
  then show ?case by simp
next
  case (3 a as)
  then have "a \<noteq> NUL" by auto
  then have "tolower a \<noteq> 0" by (simp add: tolower_0)
  then show ?case by simp
next
  case (4 a as b bs)
  then show ?case by auto
qed

lemma insert_by_insort:
  assumes "NUL \<notin> set x" and "\<forall>y\<in>set ys. NUL \<notin> set y"
  shows "insert_by strlist_orderfn x ys = insort_key (map tolower) x ys"
  using assms by (induction ys) (simp_all add: strlist_orderfn_def strcasecmp_le)

lemma set_insert_by: "set (insert_by cmp x ys) = insert x (set ys)"
  by (induction ys) auto

lemma qsort_sort_key:
  assumes "\<forall>y\<in>set xs. NUL \<notin> set y"
  shows "qsort strlist_orderfn xs = sort_key (map tolower) xs"
  using assms
proof (induction xs)
  case Nil
  then show ?case by (simp add: qsort_def sort_key_def)
next
  case (Cons x xs)
  then have IH: "foldr (insert_by strlist_orderfn) xs [] = sort_key (map tolower) xs"
    by (simp add: qsort_def)
  have "\<forall>y\<in>set (sort_key (map tolower) xs). NUL \<notin> set y" using Cons.prems by simp
  with Cons.prems IH show ?case
    by (simp add: qsort_def insert_by_insort sort_key_def)
qed

lemma fts_loop_strs:
  "strs (fts_loop ents files)
   = strs files @ map fts_accpath (filter (\<lambda>e. fts_info e = FTS_F) ents)"
  by (induction ents arbitrary: files) (simp_all add: strlist_append_def Let_def)

text \<open>
  C7.  \<open>strlist_sort\<close> rearranges the file names (none is lost or added) into
  ascending order of their lower-cased bytes, compared lexicographically, which is
  the order of \<open>strcasecmp\<close>.  The names \<open>20-z\<close>, \<open>2-y\<close>, \<open>10-x\<close> come out as \<open>10-x\<close>,
  \<open>2-y\<close>, \<open>20-z\<close> (not in numeric order), \<open>B\<close> comes after \<open>a\<close>, and the segments of
  the three files appear in that file order in the path built.
\<close>

theorem strlist_sort_case_insensitive:
  assumes "\<forall>name\<in>set (strs d). NUL \<notin> set name"
  shows "sorted (map (map tolower) (strs (strlist_sort d))) \<and>
         sorted_wrt (\<lambda>a b. strlist_orderfn a b \<le> 0) (strs (strlist_sort d)) \<and>
         mset (strs (strlist_sort d)) = mset (strs d) \<and>
         strs (strlist_sort (fts_loop (dir_ents ''/etc/paths.d'' [''20-z'', ''2-y'', ''10-x''])
                 strlist_init)) = [''10-x'', ''2-y'', ''20-z''] \<and>
         qsort strlist_orderfn [''B'', ''a''] = [''a'', ''B''] \<and>
         construct_path w_numbered s0 ''PATH'' ''/etc/paths'' ''/etc/paths.d''
           = (Some ''/bin:/x:/y:/z'', s0)"
proof (intro conjI)
  have q: "strs (strlist_sort d) = sort_key (map tolower) (strs d)"
    using assms by (simp add: strlist_sort_def qsort_sort_key)
  show s: "sorted (map (map tolower) (strs (strlist_sort d)))"
    unfolding q by (rule sorted_sort_key)
  show "mset (strs (strlist_sort d)) = mset (strs d)"
    unfolding q by simp
  have n: "\<forall>name\<in>set (strs (strlist_sort d)). NUL \<notin> set name"
    unfolding q using assms by simp
  from s have "sorted_wrt (\<lambda>a b. map tolower a \<le> map tolower b) (strs (strlist_sort d))"
    by (simp add: sorted_map)
  then show "sorted_wrt (\<lambda>a b. strlist_orderfn a b \<le> 0) (strs (strlist_sort d))"
  proof (rule sorted_wrt_mono_rel[rotated])
    fix x y
    assume "x \<in> set (strs (strlist_sort d))" and "y \<in> set (strs (strlist_sort d))"
      and "map tolower x \<le> map tolower y"
    then show "strlist_orderfn x y \<le> 0"
      using n by (simp add: strlist_orderfn_def strcasecmp_le)
  qed
  show "strs (strlist_sort (fts_loop (dir_ents ''/etc/paths.d'' [''20-z'', ''2-y'', ''10-x''])
                 strlist_init)) = [''10-x'', ''2-y'', ''20-z'']"
    by code_simp
  show "qsort strlist_orderfn [''B'', ''a''] = [''a'', ''B'']"
    by code_simp
  show "construct_path w_numbered s0 ''PATH'' ''/etc/paths'' ''/etc/paths.d''
           = (Some ''/bin:/x:/y:/z'', s0)"
    by code_simp
qed

theorem strlist_sort_case_insensitive_witness:
  "NUL \<notin> set ''b'' \<and> NUL \<notin> set ''C'' \<and> NUL \<notin> set ''a'' \<and>
   strs (strlist_sort \<lparr>strlist_n = 3, strlist_size = 100, strs = [''b'', ''C'', ''a'']\<rparr>)
     = [''a'', ''b'', ''C''] \<and>
   sorted (map (map tolower)
     (strs (strlist_sort \<lparr>strlist_n = 3, strlist_size = 100, strs = [''b'', ''C'', ''a'']\<rparr>)))"
proof -
  have n: "\<forall>name\<in>set (strs \<lparr>strlist_n = 3, strlist_size = 100, strs = [''b'', ''C'', ''a'']\<rparr>).
      NUL \<notin> set name" by (simp add: NUL_def)
  have e: "strs (strlist_sort \<lparr>strlist_n = 3, strlist_size = 100, strs = [''b'', ''C'', ''a'']\<rparr>)
     = [''a'', ''b'', ''C'']" by code_simp
  have m: "NUL \<notin> set ''b'' \<and> NUL \<notin> set ''C'' \<and> NUL \<notin> set ''a''" by (simp add: NUL_def)
  from strlist_sort_case_insensitive[OF n] m e show ?thesis by blast
qed

section \<open>Fields of a path\<close>

lemma split_on_nonempty: "split_on c s \<noteq> []"
  by (induction s) (auto split: list.splits)

lemma split_on_append: "split_on c (a @ c # b) = split_on c a @ split_on c b"
proof (induction a)
  case Nil
  then show ?case by simp
next
  case (Cons x a)
  then show ?case using split_on_nonempty[of c a] by (cases "split_on c a") auto
qed

lemma split_on_no_sep: "c \<notin> set s \<Longrightarrow> split_on c s = [s]"
  by (induction s) auto

lemma join_colon_Cons: "fs \<noteq> [] \<Longrightarrow> join_colon (f # fs) = f @ colon # join_colon fs"
  by (cases fs) simp_all

lemma join_split: "join_colon (split_on colon p) = p"
proof (induction p)
  case Nil
  then show ?case by simp
next
  case (Cons x p)
  show ?case
  proof (cases "x = colon")
    case True
    then show ?thesis using Cons split_on_nonempty[of colon p] by (simp add: join_colon_Cons)
  next
    case False
    obtain f fs where f: "split_on colon p = f # fs"
      using split_on_nonempty[of colon p] by (cases "split_on colon p") auto
    show ?thesis
    proof (cases fs)
      case Nil
      then show ?thesis using False f Cons by simp
    next
      case (Cons g gs)
      then show ?thesis using False f Cons.IH by simp
    qed
  qed
qed

lemma join_append:
  "xs \<noteq> [] \<Longrightarrow> ys \<noteq> [] \<Longrightarrow> join_colon (xs @ ys) = join_colon xs @ colon # join_colon ys"
proof (induction xs)
  case Nil
  then show ?case by simp
next
  case (Cons x xs)
  show ?case
  proof (cases "xs = []")
    case True
    then show ?thesis using Cons.prems by (simp add: join_colon_Cons)
  next
    case False
    then show ?thesis using Cons by (simp add: join_colon_Cons)
  qed
qed

lemma split_join:
  "fs \<noteq> [] \<Longrightarrow> \<forall>f\<in>set fs. colon \<notin> set f \<Longrightarrow> split_on colon (join_colon fs) = fs"
proof (induction fs)
  case Nil
  then show ?case by simp
next
  case (Cons f fs)
  show ?case
  proof (cases "fs = []")
    case True
    then show ?thesis using Cons.prems by (simp add: split_on_no_sep)
  next
    case False
    then show ?thesis
      using Cons by (simp add: join_colon_Cons split_on_append split_on_no_sep)
  qed
qed

lemma whole_field_decomp:
  "whole_field p seg \<longleftrightarrow>
     (\<exists>pre post. p = pre @ seg @ post \<and> (pre = [] \<or> last pre = colon) \<and>
        (post = [] \<or> hd post = colon))"
proof
  assume "whole_field p seg"
  then obtain i where i: "i \<le> length p" "prefix seg (drop i p)"
      "i = 0 \<or> p ! (i - 1) = colon"
      "i + length seg = length p \<or> p ! (i + length seg) = colon"
    unfolding whole_field_def Bex_def atLeastAtMost_iff by blast
  from i(2) obtain post where post: "drop i p = seg @ post" by (auto simp: prefix_def)
  have p: "p = take i p @ seg @ post" using post by (metis append_take_drop_id)
  have len: "length p = i + length seg + length post"
    using arg_cong[OF post, of length] i(1) by simp
  have l: "take i p = [] \<or> last (take i p) = colon"
  proof (cases "i = 0")
    case True
    then show ?thesis by simp
  next
    case False
    then have "take i p \<noteq> []" using i(1) by auto
    then have "last (take i p) = take i p ! (length (take i p) - 1)" by (rule last_conv_nth)
    then have "last (take i p) = p ! (i - 1)" using i(1) False by (simp add: min_def)
    then show ?thesis using i(3) False by simp
  qed
  have r: "post = [] \<or> hd post = colon"
  proof (cases "post = []")
    case True
    then show ?thesis by simp
  next
    case False
    then have "i + length seg < length p" using len by simp
    then have "p ! (i + length seg) = colon" using i(4) by simp
    moreover have "p ! (i + length seg) = drop i p ! length seg"
      using i(1) by simp
    then have "p ! (i + length seg) = (seg @ post) ! length seg"
      using post by simp
    ultimately show ?thesis using False by (simp add: nth_append hd_conv_nth)
  qed
  from p l r show "\<exists>pre post. p = pre @ seg @ post \<and> (pre = [] \<or> last pre = colon) \<and>
        (post = [] \<or> hd post = colon)" by blast
next
  assume "\<exists>pre post. p = pre @ seg @ post \<and> (pre = [] \<or> last pre = colon) \<and>
        (post = [] \<or> hd post = colon)"
  then obtain pre post where d: "p = pre @ seg @ post" "pre = [] \<or> last pre = colon"
      "post = [] \<or> hd post = colon" by blast
  have 1: "length pre \<le> length p" using d(1) by simp
  have 2: "prefix seg (drop (length pre) p)" using d(1) by simp
  have 3: "length pre = 0 \<or> p ! (length pre - 1) = colon"
  proof (cases "pre = []")
    case True
    then show ?thesis by simp
  next
    case False
    then have "p ! (length pre - 1) = last pre"
      using d(1) by (simp add: nth_append last_conv_nth)
    then show ?thesis using d(2) False by simp
  qed
  have 4: "length pre + length seg = length p \<or> p ! (length pre + length seg) = colon"
  proof (cases "post = []")
    case True
    then show ?thesis using d(1) by simp
  next
    case False
    have "p ! (length pre + length seg) = (pre @ seg @ post) ! (length (pre @ seg))"
      using d(1) by simp
    also have "\<dots> = post ! 0" by (simp add: nth_append del: append_assoc flip: append_assoc)
    finally show ?thesis using d(3) False by (simp add: hd_conv_nth)
  qed
  show "whole_field p seg"
    unfolding whole_field_def using 1 2 3 4 by (intro bexI[of _ "length pre"]) auto
qed

lemma whole_field_split:
  assumes "colon \<notin> set seg"
  shows "whole_field p seg \<longleftrightarrow> seg \<in> set (split_on colon p)"
proof
  assume "whole_field p seg"
  then obtain pre post where d: "p = pre @ seg @ post" "pre = [] \<or> last pre = colon"
      "post = [] \<or> hd post = colon" unfolding whole_field_decomp by blast
  have s: "split_on colon seg = [seg]" using assms by (rule split_on_no_sep)
  have r: "seg \<in> set (split_on colon (seg @ post))"
  proof (cases post)
    case Nil
    then show ?thesis using s by simp
  next
    case (Cons c post')
    then have "seg @ post = seg @ colon # post'" using d(3) by simp
    then show ?thesis using s by (simp add: split_on_append)
  qed
  show "seg \<in> set (split_on colon p)"
  proof (cases "pre = []")
    case True
    then show ?thesis using d(1) r by simp
  next
    case False
    then obtain pre' where "pre = pre' @ [colon]" using d(2) by (metis append_butlast_last_id)
    then have "p = pre' @ colon # (seg @ post)" using d(1) by simp
    then show ?thesis using r by (simp add: split_on_append)
  qed
next
  assume "seg \<in> set (split_on colon p)"
  then obtain xs ys where xy: "split_on colon p = xs @ seg # ys" by (meson split_list)
  have p: "p = join_colon (xs @ seg # ys)" using join_split[of p] xy by simp
  define pre where "pre = (if xs = [] then [] else join_colon xs @ [colon])"
  define post where "post = (if ys = [] then [] else colon # join_colon ys)"
  have "join_colon (seg # ys) = seg @ post"
    by (cases ys) (simp_all add: post_def)
  then have "p = pre @ seg @ post"
    unfolding p pre_def by (cases "xs = []") (simp_all add: join_append)
  moreover have "pre = [] \<or> last pre = colon" by (simp add: pre_def)
  moreover have "post = [] \<or> hd post = colon" by (simp add: post_def)
  ultimately show "whole_field p seg" unfolding whole_field_decomp by blast
qed

section \<open>Merging the environment value\<close>

lemma alloc_suffix: "list_all (\<lambda>b. b) h \<Longrightarrow> list_all (\<lambda>b. b) (snd (alloc h))"
  by (cases h) simp_all

lemma alloc_ok: "list_all (\<lambda>b. b) h \<Longrightarrow> fst (alloc h)"
  by (cases h) simp_all

lemma append_path_segment_mem:
  "list_all (\<lambda>b. b) h \<Longrightarrow> list_all (\<lambda>b. b) (snd (snd (append_path_segment h path segment)))"
  using alloc_suffix[of h]
  by (cases "alloc h") (auto simp: append_path_segment_def Let_def split: option.splits bool.splits)

lemma env_step_empty: "env_step [] rs = rs"
proof (cases rs)
  case (Pair r s)
  then show ?thesis
    by (cases r) (simp_all add: env_step_def append_path_segment_null append_path_segment_empty)
qed

lemma fold_env_step_filter:
  "fold env_step (filter (\<lambda>f. f \<noteq> []) segs) rs = fold env_step segs rs"
  by (induction segs arbitrary: rs) (simp_all add: env_step_empty)

lemma split_on_only_seps: "set v \<subseteq> {c} \<Longrightarrow> set (split_on c v) \<subseteq> {[]}"
  by (induction v) auto

lemma split_on_fields: "f \<in> set (split_on c s) \<Longrightarrow> c \<notin> set f"
proof (induction s arbitrary: f)
  case Nil
  then show ?case by simp
next
  case (Cons x s)
  show ?case
  proof (cases "x = c")
    case True
    with Cons show ?thesis by auto
  next
    case False
    obtain g gs where g: "split_on c s = g # gs"
      using split_on_nonempty[of c s] by (cases "split_on c s") auto
    with Cons.prems False have "f = x # g \<or> f \<in> set gs" by simp
    then show ?thesis using Cons.IH[of g] Cons.IH[of f] g False by auto
  qed
qed

lemma all_ok_env_step: "all_ok (snd rs) \<Longrightarrow> all_ok (snd (env_step seg rs))"
  using append_path_segment_mem[of "mem (snd rs)" "fst rs" "Some seg"]
  by (auto simp: env_step_def all_ok_def split: prod.splits)

lemma env_step_cases:
  assumes "all_ok s"
  shows "fst (env_step seg (Some p, s)) = Some p \<or>
         (seg \<noteq> [] \<and> fst (env_step seg (Some p, s)) = Some (extend_path p [seg]))"
proof (cases "seg = [] \<or> whole_field p seg")
  case True
  then show ?thesis
    by (auto simp: env_step_def append_path_segment_empty append_path_segment_present)
next
  case False
  then have f: "seg \<noteq> []" "\<not> whole_field p seg" by auto
  have "fst (alloc (mem s))" using assms by (simp add: all_ok_def alloc_ok)
  then show ?thesis
    using append_path_segment_fresh[OF f, of "mem s"] f(1)
    by (simp add: env_step_def extend_path_def)
qed

lemma extend_path_append: "extend_path (extend_path p xs) ys = extend_path p (xs @ ys)"
  by (simp add: extend_path_def)

lemma fold_env_step_extends:
  assumes "all_ok s"
  shows "\<exists>new. fst (fold env_step segs (Some p, s)) = Some (extend_path p new) \<and>
           set new \<subseteq> set segs - {[]}"
  using assms
proof (induction segs arbitrary: p s)
  case Nil
  have "fst (fold env_step [] (Some p, s)) = Some (extend_path p [])"
    by (simp add: extend_path_def)
  then show ?case by (intro exI[of _ "[]"]) simp
next
  case (Cons seg segs)
  obtain r' s' where st: "env_step seg (Some p, s) = (r', s')" by (cases "env_step seg (Some p, s)")
  have ok': "all_ok s'" using all_ok_env_step[of "(Some p, s)" seg] Cons.prems st by simp
  from env_step_cases[OF Cons.prems, of seg p] st
  consider "r' = Some p" | "seg \<noteq> []" "r' = Some (extend_path p [seg])" by auto
  then show ?case
  proof cases
    case 1
    from Cons.IH[OF ok', of p] obtain new where
      "fst (fold env_step segs (Some p, s')) = Some (extend_path p new)" "set new \<subseteq> set segs - {[]}"
      by blast
    then show ?thesis using st 1 by (intro exI[of _ new]) auto
  next
    case 2
    from Cons.IH[OF ok', of "extend_path p [seg]"] obtain new where
      n: "fst (fold env_step segs (Some (extend_path p [seg]), s'))
            = Some (extend_path (extend_path p [seg]) new)" "set new \<subseteq> set segs - {[]}"
      by blast
    then show ?thesis using st 2 by (intro exI[of _ "seg # new"]) (auto simp: extend_path_append)
  qed
qed

text \<open>
  C9.  Merging the environment value appends exactly what appending its non-empty
  fields appends: the empty fields (from a leading colon, a trailing colon or two
  adjacent colons) are no-ops.  A value of colons only leaves the path and the
  state as they were.  When no allocation fails, the path after the merge is the
  path before it followed by non-empty fields of the value: no empty field is added.
\<close>

theorem env_merge_drops_empty_fields:
  "env_loop v rs = fold env_step (filter (\<lambda>f. f \<noteq> []) (split_on colon v)) rs \<and>
   (set v \<subseteq> {colon} \<longrightarrow> env_loop v rs = rs) \<and>
   (all_ok s \<longrightarrow>
      (\<exists>new. fst (env_loop v (Some p, s)) = Some (extend_path p new) \<and>
             set new \<subseteq> set (split_on colon v) - {[]}))"
proof (intro conjI impI)
  show 1: "env_loop v rs = fold env_step (filter (\<lambda>f. f \<noteq> []) (split_on colon v)) rs"
    by (simp add: env_loop_fold fold_env_step_filter)
  show "env_loop v rs = rs" if "set v \<subseteq> {colon}"
  proof -
    have "filter (\<lambda>f. f \<noteq> []) (split_on colon v) = []"
      using split_on_only_seps[OF that] by (auto simp: filter_empty_conv)
    then show ?thesis using 1 by simp
  qed
  show "\<exists>new. fst (env_loop v (Some p, s)) = Some (extend_path p new) \<and>
             set new \<subseteq> set (split_on colon v) - {[]}" if "all_ok s"
    using fold_env_step_extends[OF that] by (simp add: env_loop_fold)
qed

theorem env_merge_drops_empty_fields_witness:
  "set '':::'' \<subseteq> {colon} \<and> env_loop '':::'' (Some ''/x'', s0) = (Some ''/x'', s0) \<and> all_ok s0 \<and>
   env_loop '':/a::/b:'' (Some ''/x'', s0) = (Some ''/x:/a:/b'', s0) \<and>
   (\<exists>new. fst (env_loop '':/a::/b:'' (Some ''/x'', s0)) = Some (extend_path ''/x'' new) \<and>
          set new \<subseteq> set (split_on colon '':/a::/b:'') - {[]})"
proof -
  have c: "set '':::'' \<subseteq> {colon}" by (simp add: colon_def)
  have ok: "all_ok s0" by (simp add: all_ok_def s0_def)
  have e: "env_loop '':/a::/b:'' (Some ''/x'', s0) = (Some ''/x:/a:/b'', s0)" by code_simp
  from env_merge_drops_empty_fields[of "'':::''" "(Some ''/x'', s0)" s0 "''/x''"] c
  have 1: "env_loop '':::'' (Some ''/x'', s0) = (Some ''/x'', s0)" by blast
  from env_merge_drops_empty_fields[of "'':/a::/b:''" "(Some ''/x'', s0)" s0 "''/x''"] ok
  have 2: "\<exists>new. fst (env_loop '':/a::/b:'' (Some ''/x'', s0)) = Some (extend_path ''/x'' new) \<and>
          set new \<subseteq> set (split_on colon '':/a::/b:'') - {[]}" by blast
  from c 1 ok e 2 show ?thesis by blast
qed

section \<open>Properties of construct_path\<close>

lemma good_add_seg: "good fs \<Longrightarrow> colon \<notin> set seg \<Longrightarrow> good (add_seg fs seg)"
  by (simp add: good_def add_seg_def)

lemma join_colon_eq_Nil: "good fs \<Longrightarrow> join_colon fs = [] \<longleftrightarrow> fs = []"
  by (induction fs rule: join_colon.induct) (simp_all add: good_def)

lemma whole_field_join:
  assumes "good fs" and "colon \<notin> set seg" and "seg \<noteq> []"
  shows "whole_field (join_colon fs) seg \<longleftrightarrow> seg \<in> set fs"
proof (cases "fs = []")
  case True
  then show ?thesis using assms(2,3) by (simp add: whole_field_split)
next
  case False
  have "\<forall>f\<in>set fs. colon \<notin> set f" using assms(1) by (simp add: good_def list_all_iff)
  then have "split_on colon (join_colon fs) = fs" using False by (simp add: split_join)
  then show ?thesis using assms(2) by (simp add: whole_field_split)
qed

lemma join_snoc:
  "join_colon (fs @ [seg]) = (if fs = [] then seg else join_colon fs @ colon # seg)"
  by (simp add: join_append)

lemma append_join:
  assumes "good fs" and "colon \<notin> set seg" and "fst (alloc h)"
  shows "fst (snd (append_path_segment h (Some (join_colon fs)) (Some seg)))
         = Some (join_colon (add_seg fs seg))"
proof (cases "seg = []")
  case True
  then show ?thesis by (simp add: append_path_segment_empty add_seg_def)
next
  case False
  show ?thesis
  proof (cases "seg \<in> set fs")
    case True
    then have "whole_field (join_colon fs) seg" using assms False by (simp add: whole_field_join)
    then show ?thesis using True by (simp add: append_path_segment_present add_seg_def)
  next
    case nin: False
    then have "\<not> whole_field (join_colon fs) seg" using assms False by (simp add: whole_field_join)
    from append_path_segment_fresh[OF False this, of h] assms(3)
    show ?thesis
      using nin False assms(1) by (simp add: add_seg_def join_snoc join_colon_eq_Nil)
  qed
qed

lemma env_step_join:
  assumes "all_ok s" and "good fs" and "colon \<notin> set seg"
  shows "fst (env_step seg (Some (join_colon fs), s)) = Some (join_colon (add_seg fs seg))"
proof -
  have "fst (alloc (mem s))" using assms(1) by (simp add: all_ok_def alloc_ok)
  from append_join[OF assms(2,3) this] show ?thesis
    by (auto simp: env_step_def split: prod.splits)
qed

lemma fold_env_step_join:
  assumes "all_ok (snd rs)" and "fst rs = Some (join_colon fs)" and "good fs"
    and "\<forall>seg\<in>set segs. colon \<notin> set seg"
  shows "fst (fold env_step segs rs) = Some (join_colon (foldl add_seg fs segs)) \<and>
         all_ok (snd (fold env_step segs rs))"
  using assms
proof (induction segs arbitrary: rs fs)
  case Nil
  then show ?case by simp
next
  case (Cons seg segs)
  obtain s where rs: "rs = (Some (join_colon fs), s)" using Cons.prems(2) by (cases rs) simp
  have 1: "all_ok (snd (env_step seg rs))" using Cons.prems(1) by (rule all_ok_env_step)
  have 2: "fst (env_step seg rs) = Some (join_colon (add_seg fs seg))"
    unfolding rs using Cons.prems rs by (intro env_step_join) simp_all
  have 3: "good (add_seg fs seg)" using Cons.prems by (simp add: good_add_seg)
  from Cons.IH[OF 1 2 3] Cons.prems(4) show ?case by simp
qed

lemma c_str_buffer: "c_str (x @ replicate n NUL) = c_str x"
proof (induction x)
  case Nil
  then show ?case by (cases n) (simp_all add: c_str_def)
next
  case (Cons a x)
  then show ?case by (simp add: c_str_def)
qed

lemma line_step_env_step:
  assumes "fst (alloc (mem s))"
  shows "line_step line (r, s) = env_step (c_str (sanitize line)) (r, s\<lparr>mem := snd (alloc (mem s))\<rparr>)"
  using read_segment_ok[OF assms, of line]
  by (simp add: line_step_def env_step_def c_str_buffer)

lemma all_ok_line_step: "all_ok (snd rs) \<Longrightarrow> all_ok (snd (line_step line rs))"
proof -
  assume a: "all_ok (snd rs)"
  obtain r s where rs: "rs = (r, s)" by (cases rs)
  have "fst (alloc (mem s))" using a rs by (simp add: all_ok_def alloc_ok)
  from line_step_env_step[OF this, of line r]
  have "line_step line rs = env_step (c_str (sanitize line)) (r, s\<lparr>mem := snd (alloc (mem s))\<rparr>)"
    using rs by simp
  moreover have "all_ok (s\<lparr>mem := snd (alloc (mem s))\<rparr>)"
    using a rs by (simp add: all_ok_def alloc_suffix)
  ultimately show ?thesis using all_ok_env_step[of "(r, s\<lparr>mem := snd (alloc (mem s))\<rparr>)"] by simp
qed

lemma line_step_join:
  assumes "all_ok s" and "good fs" and "colon \<notin> set (c_str (sanitize line))"
  shows "fst (line_step line (Some (join_colon fs), s))
         = Some (join_colon (add_seg fs (c_str (sanitize line))))"
proof -
  have a: "fst (alloc (mem s))" using assms(1) by (simp add: all_ok_def alloc_ok)
  have "all_ok (s\<lparr>mem := snd (alloc (mem s))\<rparr>)"
    using assms(1) by (simp add: all_ok_def alloc_suffix)
  from env_step_join[OF this assms(2,3)] show ?thesis
    by (simp add: line_step_env_step[OF a])
qed

lemma fold_line_step_join:
  assumes "all_ok (snd rs)" and "fst rs = Some (join_colon fs)" and "good fs"
    and "\<forall>line\<in>set ls. colon \<notin> set (c_str (sanitize line))"
  shows "fst (fold line_step ls rs)
           = Some (join_colon (foldl add_seg fs (map (\<lambda>l. c_str (sanitize l)) ls))) \<and>
         all_ok (snd (fold line_step ls rs))"
  using assms
proof (induction ls arbitrary: rs fs)
  case Nil
  then show ?case by simp
next
  case (Cons l ls)
  obtain s where rs: "rs = (Some (join_colon fs), s)" using Cons.prems(2) by (cases rs) simp
  have 1: "all_ok (snd (line_step l rs))" using Cons.prems(1) by (rule all_ok_line_step)
  have 2: "fst (line_step l rs) = Some (join_colon (add_seg fs (c_str (sanitize l))))"
    unfolding rs using Cons.prems rs by (intro line_step_join) simp_all
  have 3: "good (add_seg fs (c_str (sanitize l)))" using Cons.prems by (simp add: good_add_seg)
  from Cons.IH[OF 1 2 3] Cons.prems(4) show ?case by simp
qed

lemma good_foldl_add_seg:
  "good fs \<Longrightarrow> \<forall>seg\<in>set segs. colon \<notin> set seg \<Longrightarrow> good (foldl add_seg fs segs)"
  by (induction segs arbitrary: fs) (simp_all add: good_add_seg)

lemma append_path_file_join:
  assumes "all_ok (snd rs)" and "fst rs = Some (join_colon fs)" and "good fs"
    and "\<forall>seg\<in>set (file_segments w (pfx @ ''/'' @ fname)). colon \<notin> set seg"
  shows "fst (append_path_file w pfx fname rs)
           = Some (join_colon (foldl add_seg fs (file_segments w (pfx @ ''/'' @ fname)))) \<and>
         all_ok (snd (append_path_file w pfx fname rs))"
proof (cases "fopen w (pfx @ ''/'' @ fname)")
  case None
  then show ?thesis
    using assms(1,2) by (simp add: append_path_file_def file_segments_def Let_def all_ok_def)
next
  case (Some f)
  then have "\<forall>line\<in>set (split_lines f). colon \<notin> set (c_str (sanitize line))"
    using assms(4) by (simp add: file_segments_def)
  from fold_line_step_join[OF assms(1,2,3) this] Some show ?thesis
    by (simp add: append_path_file_def file_segments_def Let_def file_loop_fold)
qed

lemma fold_append_path_file_join:
  assumes "all_ok (snd rs)" and "fst rs = Some (join_colon fs)" and "good fs"
    and "\<forall>n\<in>set names. \<forall>seg\<in>set (file_segments w (d @ ''/'' @ n)). colon \<notin> set seg"
  shows "fst (fold (append_path_file w d) names rs)
           = Some (join_colon (foldl add_seg fs
                 (concat (map (\<lambda>n. file_segments w (d @ ''/'' @ n)) names)))) \<and>
         all_ok (snd (fold (append_path_file w d) names rs))"
  using assms
proof (induction names arbitrary: rs fs)
  case Nil
  then show ?case by simp
next
  case (Cons n names)
  have c: "\<forall>seg\<in>set (file_segments w (d @ ''/'' @ n)). colon \<notin> set seg"
    using Cons.prems(4) by simp
  note A = append_path_file_join[OF Cons.prems(1,2,3) c]
  have g: "good (foldl add_seg fs (file_segments w (d @ ''/'' @ n)))"
    using Cons.prems(3) c by (rule good_foldl_add_seg)
  have r: "\<forall>n\<in>set names. \<forall>seg\<in>set (file_segments w (d @ ''/'' @ n)). colon \<notin> set seg"
    using Cons.prems(4) by simp
  from Cons.IH[OF conjunct2[OF A] conjunct1[OF A] g r] show ?case by simp
qed

lemma foldl_add_seg_distinct: "distinct fs \<Longrightarrow> distinct (foldl add_seg fs segs)"
  by (induction segs arbitrary: fs) (simp_all add: add_seg_def)

lemma foldl_add_seg_set: "set (foldl add_seg fs segs) = set fs \<union> (set segs - {[]})"
  by (induction segs arbitrary: fs) (auto simp: add_seg_def)

lemma first_seen_distinct: "distinct (first_seen segs)"
  by (simp add: first_seen_def foldl_add_seg_distinct)

lemma first_seen_set: "set (first_seen segs) = set segs - {[]}"
  by (simp add: first_seen_def foldl_add_seg_set)

lemma strs_sorted_files:
  "fts_open w dir_path = Some ents \<Longrightarrow>
   strs (strlist_sort (fts_loop ents strlist_init)) = fragment_names w dir_path"
  by (simp add: strlist_sort_def fts_loop_strs fragment_names_def strlist_init_def)

lemma construct_path_join:
  assumes "all_ok s" and "fts_open w dir_path = Some ents"
    and "\<forall>seg\<in>set (scanned_file_segments w defaults_path dir_path). colon \<notin> set seg"
  shows "fst (construct_path w s env_var defaults_path dir_path)
         = Some (join_colon (first_seen
             (scanned_file_segments w defaults_path dir_path @ env_segments w env_var)))"
proof -
  let ?A = "file_segments w (''/'' @ defaults_path)"
  let ?B = "concat (map (\<lambda>n. file_segments w (dir_path @ ''/'' @ n)) (fragment_names w dir_path))"
  obtain h1 where a: "alloc (mem s) = (True, h1)"
    using assms(1) alloc_ok[of "mem s"] by (cases "alloc (mem s)") (simp add: all_ok_def)
  define s1 where "s1 = s\<lparr>mem := h1\<rparr>"
  define r1 where "r1 = append_path_file w [] defaults_path (Some [], s1)"
  define r2 where "r2 = fold (append_path_file w dir_path) (fragment_names w dir_path) r1"
  have ok1: "all_ok (snd (Some [], s1))"
    using assms(1) alloc_suffix[of "mem s"] a by (simp add: s1_def all_ok_def)
  have j0: "fst (Some ([]::string), s1) = Some (join_colon [])" by simp
  have g0: "good []" by (simp add: good_def)
  have cA: "\<forall>seg\<in>set (file_segments w ([] @ ''/'' @ defaults_path)). colon \<notin> set seg"
    using assms(3) by (simp add: scanned_file_segments_def)
  have cB: "\<forall>n\<in>set (fragment_names w dir_path).
      \<forall>seg\<in>set (file_segments w (dir_path @ ''/'' @ n)). colon \<notin> set seg"
    using assms(3) by (auto simp: scanned_file_segments_def)
  from append_path_file_join[OF ok1 j0 g0 cA]
  have R1: "fst r1 = Some (join_colon (foldl add_seg [] ?A))" "all_ok (snd r1)"
    unfolding r1_def by simp_all
  have gA: "good (foldl add_seg [] ?A)" using g0 cA by (intro good_foldl_add_seg) simp_all
  from fold_append_path_file_join[OF R1(2) R1(1) gA cB]
  have R2: "fst r2 = Some (join_colon (foldl add_seg [] (?A @ ?B)))" "all_ok (snd r2)"
    unfolding r2_def by simp_all
  have gB: "good (foldl add_seg [] (?A @ ?B))"
    using g0 assms(3) by (intro good_foldl_add_seg) (simp_all add: scanned_file_segments_def)
  have cp: "construct_path w s env_var defaults_path dir_path =
      (case getenv w env_var of
         None \<Rightarrow> r2
       | Some v \<Rightarrow>
           (case alloc (mem (snd r2)) of
              (False, h3) \<Rightarrow> (fst r2, (snd r2)\<lparr>mem := h3\<rparr>)
            | (True, h3) \<Rightarrow> env_loop v (fst r2, (snd r2)\<lparr>mem := h3\<rparr>)))"
    unfolding construct_path_def Let_def r2_def r1_def s1_def a assms(2)
      strs_sorted_files[OF assms(2), symmetric]
    by simp
  show ?thesis
  proof (cases "getenv w env_var")
    case None
    then show ?thesis
      using cp R2(1) by (simp add: env_segments_def first_seen_def scanned_file_segments_def)
  next
    case (Some v)
    obtain h3 where a3: "alloc (mem (snd r2)) = (True, h3)"
      using R2(2) alloc_ok[of "mem (snd r2)"]
      by (cases "alloc (mem (snd r2))") (simp add: all_ok_def)
    define s3 where "s3 = (snd r2)\<lparr>mem := h3\<rparr>"
    have ok3: "all_ok (snd (fst r2, s3))"
      using R2(2) alloc_suffix[of "mem (snd r2)"] a3 by (simp add: s3_def all_ok_def)
    have j3: "fst (fst r2, s3) = Some (join_colon (foldl add_seg [] (?A @ ?B)))"
      using R2(1) by simp
    have cE: "\<forall>seg\<in>set (split_on colon v). colon \<notin> set seg"
      using split_on_fields by blast
    from fold_env_step_join[OF ok3 j3 gB cE]
    have "fst (env_loop v (fst r2, s3))
        = Some (join_colon (foldl add_seg [] ((?A @ ?B) @ split_on colon v)))"
      by (simp add: env_loop_fold)
    moreover have "construct_path w s env_var defaults_path dir_path = env_loop v (fst r2, s3)"
      using cp Some a3 by (simp add: s3_def)
    ultimately show ?thesis
      using Some by (simp add: env_segments_def first_seen_def scanned_file_segments_def)
  qed
qed

text \<open>
  C1 (as amended).  When the fragment directory opens, no allocation fails and no
  segment read from the files contains a colon, \<open>construct_path\<close> returns the
  colon-joined segments in the order first encountered across the lines of the
  defaults file, the lines of the fragment files in sorted file order, and the
  fields of the environment value; empty segments and later occurrences are
  dropped (the list is distinct and holds every non-empty segment scanned).  With
  the defaults lines \<open>/usr/bin\<close>, \<open>/bin\<close>, the fragment file \<open>local\<close> with the lines
  \<open>/usr/local/bin\<close>, \<open>/usr/bin\<close>, and the variable unset, the value is
  \<open>/usr/bin:/bin:/usr/local/bin\<close>.
\<close>

theorem construct_path_first_seen:
  assumes "all_ok s" and "fts_open w dir_path \<noteq> None"
    and "\<forall>seg\<in>set (scanned_file_segments w defaults_path dir_path). colon \<notin> set seg"
  shows "fst (construct_path w s env_var defaults_path dir_path)
           = Some (join_colon (first_seen
               (scanned_file_segments w defaults_path dir_path @ env_segments w env_var))) \<and>
         distinct (first_seen segs) \<and> set (first_seen segs) = set segs - {[]} \<and>
         construct_path w_example s0 ''PATH'' ''/etc/paths'' ''/etc/paths.d''
           = (Some ''/usr/bin:/bin:/usr/local/bin'', s0)"
proof (intro conjI)
  from assms(2) obtain ents where "fts_open w dir_path = Some ents" by auto
  from construct_path_join[OF assms(1) this assms(3)]
  show "fst (construct_path w s env_var defaults_path dir_path)
           = Some (join_colon (first_seen
               (scanned_file_segments w defaults_path dir_path @ env_segments w env_var)))" .
  show "distinct (first_seen segs)" by (rule first_seen_distinct)
  show "set (first_seen segs) = set segs - {[]}" by (rule first_seen_set)
  show "construct_path w_example s0 ''PATH'' ''/etc/paths'' ''/etc/paths.d''
           = (Some ''/usr/bin:/bin:/usr/local/bin'', s0)" by code_simp
qed

theorem construct_path_first_seen_witness:
  "all_ok s0 \<and> fts_open w_numbered ''/etc/paths.d'' \<noteq> None \<and>
   scanned_file_segments w_numbered ''/etc/paths'' ''/etc/paths.d'' = [''/bin'', ''/x'', ''/y'', ''/z''] \<and>
   env_segments w_numbered ''PATH'' = [] \<and>
   fst (construct_path w_numbered s0 ''PATH'' ''/etc/paths'' ''/etc/paths.d'')
     = Some (join_colon (first_seen [''/bin'', ''/x'', ''/y'', ''/z'']))"
proof -
  have ok: "all_ok s0" by (simp add: all_ok_def s0_def)
  have f: "fts_open w_numbered ''/etc/paths.d'' \<noteq> None" by (simp add: w_numbered_def)
  have sc: "scanned_file_segments w_numbered ''/etc/paths'' ''/etc/paths.d''
      = [''/bin'', ''/x'', ''/y'', ''/z'']" by code_simp
  have e: "env_segments w_numbered ''PATH'' = []" by (simp add: env_segments_def w_numbered_def)
  have c: "\<forall>seg\<in>set (scanned_file_segments w_numbered ''/etc/paths'' ''/etc/paths.d'').
      colon \<notin> set seg" unfolding sc by (simp add: colon_def)
  from construct_path_first_seen[OF ok f c, of "''PATH''"] ok f sc e show ?thesis by simp
qed

text \<open>
  C1 as stated fails for a file line that contains a colon.  The line
  \<open>/opt/bin:/usr/bin\<close> is appended whole after \<open>/usr/bin\<close>, since it is not a field of
  the path, and the later line \<open>/opt/bin\<close> is dropped, since it now is one: the value
  built has the field \<open>/usr/bin\<close> twice and is not the first-seen list of the
  segments scanned.
\<close>

theorem first_seen_order_counterexample:
  "fst (construct_path w_colons s0 ''PATH'' ''/etc/paths'' ''/etc/paths.d'')
     = Some ''/usr/bin:/opt/bin:/usr/bin'' \<and>
   \<not> distinct (split_on colon ''/usr/bin:/opt/bin:/usr/bin'') \<and>
   \<not> (fst (construct_path w_colons s0 ''PATH'' ''/etc/paths'' ''/etc/paths.d'')
        = Some (join_colon (first_seen
            (scanned_file_segments w_colons ''/etc/paths'' ''/etc/paths.d''
             @ env_segments w_colons ''PATH''))))"
proof -
  have 1: "construct_path w_colons s0 ''PATH'' ''/etc/paths'' ''/etc/paths.d''
      = (Some ''/usr/bin:/opt/bin:/usr/bin'', s0)" by code_simp
  have 2: "split_on colon ''/usr/bin:/opt/bin:/usr/bin'' = [''/usr/bin'', ''/opt/bin'', ''/usr/bin'']"
    by code_simp
  have 3: "join_colon (first_seen
            (scanned_file_segments w_colons ''/etc/paths'' ''/etc/paths.d''
             @ env_segments w_colons ''PATH'')) = ''/usr/bin:/opt/bin:/usr/bin:/opt/bin''"
    by code_simp
  show ?thesis unfolding 1 2 3 by simp
qed

section \<open>Allocation failure during a build\<close>

lemma append_rc_failure:
  "fst (append_path_segment h (Some q) (Some sg)) = - 1 \<longleftrightarrow>
     sg \<noteq> [] \<and> \<not> whole_field q sg \<and> \<not> fst (alloc h)"
proof (cases "sg = [] \<or> whole_field q sg")
  case True
  then show ?thesis
    by (auto simp: append_path_segment_empty append_path_segment_present)
next
  case False
  then have f: "sg \<noteq> []" "\<not> whole_field q sg" by auto
  show ?thesis using append_path_segment_fresh[OF f, of h] f by simp
qed

lemma append_rc_null:
  assumes "fst (append_path_segment h (Some q) (Some sg)) = - 1"
  shows "append_path_segment h (Some q) (Some sg) = (- 1, None, snd (alloc h))"
proof -
  from assms have f: "sg \<noteq> []" "\<not> whole_field q sg" "\<not> fst (alloc h)"
    by (simp_all add: append_rc_failure)
  from append_path_segment_fresh[OF f(1,2), of h] f(3) show ?thesis by simp
qed

lemma line_call_null:
  assumes "line_call line rs = (Some p, Some seg, - 1)"
  shows "fst (line_step line rs) = None"
proof -
  obtain segment h1 where r: "read_segment (mem (snd rs)) line = (segment, h1)"
    by (cases "read_segment (mem (snd rs)) line")
  from assms r have e: "fst rs = Some p" "map_option c_str segment = Some seg"
      "fst (append_path_segment h1 (Some p) (Some seg)) = - 1"
    by (auto simp: line_call_def)
  from append_rc_null[OF e(3)] r e(1,2) show ?thesis by (auto simp: line_step_def)
qed

lemma env_call_null:
  assumes "env_call sg rs = (Some p, Some seg, - 1)"
  shows "fst (env_step sg rs) = None"
proof -
  from assms have e: "fst rs = Some p" "sg = seg"
      "fst (append_path_segment (mem (snd rs)) (Some p) (Some seg)) = - 1"
    by (auto simp: env_call_def)
  from append_rc_null[OF e(3)] e(1,2) show ?thesis by (auto simp: env_step_def)
qed

lemma fold_null:
  assumes "\<And>x rs. fst rs = None \<Longrightarrow> fst (st x rs) = None"
  shows "fst rs = None \<Longrightarrow> fst (fold st xs rs) = None"
  by (induction xs arbitrary: rs) (simp_all add: assms)

lemma calls_of_null:
  assumes n: "\<And>x rs. fst rs = None \<Longrightarrow> fst (st x rs) = None"
    and c: "\<And>x rs. c x rs = (Some p, Some seg, - 1) \<Longrightarrow> fst (st x rs) = None"
  shows "(Some p, Some seg, - 1) \<in> set (calls_of c st xs rs) \<Longrightarrow> fst (fold st xs rs) = None"
proof (induction xs arbitrary: rs)
  case Nil
  then show ?case by simp
next
  case (Cons x xs)
  from Cons.prems consider "c x rs = (Some p, Some seg, - 1)"
    | "(Some p, Some seg, - 1) \<in> set (calls_of c st xs (st x rs))" by auto
  then show ?case
  proof cases
    case 1
    then have "fst (st x rs) = None" by (rule c)
    then show ?thesis using fold_null[of st "st x rs" xs] n by simp
  next
    case 2
    then show ?thesis using Cons.IH by simp
  qed
qed

lemma file_calls_null:
  assumes "(Some p, Some seg, - 1) \<in> set (file_calls w pfx fname rs)"
  shows "fst (append_path_file w pfx fname rs) = None"
proof (cases "fopen w (pfx @ ''/'' @ fname)")
  case None
  with assms show ?thesis by (simp add: file_calls_def)
next
  case (Some f)
  with assms have "(Some p, Some seg, - 1) \<in> set (calls_of line_call line_step (split_lines f) rs)"
    by (simp add: file_calls_def)
  then have "fst (fold line_step (split_lines f) rs) = None"
  proof (rule calls_of_null[rotated 2])
    fix x and rs' :: "string option \<times> proc"
    assume "fst rs' = None"
    then show "fst (line_step x rs') = None" by (cases rs') (simp add: line_step_null)
  next
    fix x and rs' :: "string option \<times> proc"
    assume "line_call x rs' = (Some p, Some seg, - 1)"
    then show "fst (line_step x rs') = None" by (rule line_call_null)
  qed
  then show ?thesis using Some by (simp add: append_path_file_def Let_def file_loop_fold)
qed

lemma files_calls_null:
  "(Some p, Some seg, - 1) \<in> set (files_calls w d names rs) \<Longrightarrow>
   fst (fold (append_path_file w d) names rs) = None"
proof (induction names arbitrary: rs)
  case Nil
  then show ?case by simp
next
  case (Cons n ns)
  from Cons.prems consider "(Some p, Some seg, - 1) \<in> set (file_calls w d n rs)"
    | "(Some p, Some seg, - 1) \<in> set (files_calls w d ns (append_path_file w d n rs))" by auto
  then show ?case
  proof cases
    case 1
    then have "fst (append_path_file w d n rs) = None" by (rule file_calls_null)
    then show ?thesis by (simp add: fold_append_path_file_null)
  next
    case 2
    then show ?thesis using Cons.IH by simp
  qed
qed

lemma env_phase_null: "fst r2 = None \<Longrightarrow> fst (env_phase w env_var r2) = None"
  by (auto simp: env_phase_def env_loop_null split: option.splits prod.splits bool.splits)

lemma env_calls_null:
  assumes "(Some p, Some seg, - 1) \<in> set (env_calls w env_var r2)"
  shows "fst (env_phase w env_var r2) = None"
proof (cases "getenv w env_var")
  case None
  with assms show ?thesis by (simp add: env_calls_def)
next
  case (Some v)
  obtain b h3 where a: "alloc (mem (snd r2)) = (b, h3)" by (cases "alloc (mem (snd r2))")
  show ?thesis
  proof (cases b)
    case False
    with assms Some a show ?thesis by (simp add: env_calls_def)
  next
    case True
    with assms Some a have "(Some p, Some seg, - 1)
        \<in> set (calls_of env_call env_step (split_on colon v) (fst r2, (snd r2)\<lparr>mem := h3\<rparr>))"
      by (simp add: env_calls_def)
    then have "fst (fold env_step (split_on colon v) (fst r2, (snd r2)\<lparr>mem := h3\<rparr>)) = None"
    proof (rule calls_of_null[rotated 2])
      fix x and rs' :: "string option \<times> proc"
      assume "fst rs' = None"
      then show "fst (env_step x rs') = None" by (rule env_step_null)
    next
      fix x and rs' :: "string option \<times> proc"
      assume "env_call x rs' = (Some p, Some seg, - 1)"
      then show "fst (env_step x rs') = None" by (rule env_call_null)
    qed
    then show ?thesis using Some a True by (simp add: env_phase_def env_loop_fold)
  qed
qed

lemma construct_path_phases:
  assumes "fts_open w dir_path = Some ents" and "alloc (mem s) = (ok, h1)"
  shows "construct_path w s env_var defaults_path dir_path
         = env_phase w env_var
             (fold (append_path_file w dir_path) (fragment_names w dir_path)
                (append_path_file w [] defaults_path (if ok then Some [] else None, s\<lparr>mem := h1\<rparr>)))"
  unfolding construct_path_def Let_def env_phase_def assms
    strs_sorted_files[OF assms(1), symmetric]
  by simp

text \<open>
  C4 (as amended).  When \<open>reallocf\<close> fails while a segment is appended, that is,
  when some call of \<open>append_path_segment\<close> in the build is given a path and a segment
  and returns -1, \<open>construct_path\<close> returns \<open>NULL\<close>, not a partial path.  A call on a
  path and a segment returns -1 exactly when the segment is not empty, is not a
  field of the path, and the allocation fails; the path is \<open>NULL\<close> after it, and a
  \<open>NULL\<close> path stays \<open>NULL\<close> through every file read and through the merge of the
  environment value.
\<close>

theorem alloc_failure_nulls_build:
  assumes "(Some p, Some seg, - 1) \<in> set (build_calls w s env_var defaults_path dir_path)"
  shows "fst (construct_path w s env_var defaults_path dir_path) = None \<and>
         (fst (append_path_segment h (Some q) (Some sg)) = - 1 \<longleftrightarrow>
            sg \<noteq> [] \<and> \<not> whole_field q sg \<and> \<not> fst (alloc h)) \<and>
         (fst (append_path_segment h (Some q) (Some sg)) = - 1 \<longrightarrow>
            append_path_segment h (Some q) (Some sg) = (- 1, None, snd (alloc h))) \<and>
         fst (append_path_file w pfx fname (None, s')) = None \<and>
         fst (fold (append_path_file w dir_path) names (None, s')) = None \<and>
         fst (env_loop v (None, s')) = None"
proof (intro conjI impI)
  show "fst (construct_path w s env_var defaults_path dir_path) = None"
  proof (cases "fts_open w dir_path")
    case None
    with assms show ?thesis by (simp add: build_calls_def)
  next
    case (Some ents)
    obtain ok h1 where a: "alloc (mem s) = (ok, h1)" by (cases "alloc (mem s)")
    define rs0 :: "string option \<times> proc"
      where "rs0 = (if ok then Some [] else None, s\<lparr>mem := h1\<rparr>)"
    define r1 where "r1 = append_path_file w [] defaults_path rs0"
    define r2 where "r2 = fold (append_path_file w dir_path) (fragment_names w dir_path) r1"
    have cp: "construct_path w s env_var defaults_path dir_path = env_phase w env_var r2"
      unfolding r2_def r1_def rs0_def by (rule construct_path_phases[OF Some a])
    from assms Some a
    have "(Some p, Some seg, - 1) \<in> set (file_calls w [] defaults_path rs0 @
        files_calls w dir_path (fragment_names w dir_path) r1 @ env_calls w env_var r2)"
      by (simp add: build_calls_def Let_def rs0_def r1_def r2_def)
    then consider "(Some p, Some seg, - 1) \<in> set (file_calls w [] defaults_path rs0)"
      | "(Some p, Some seg, - 1) \<in> set (files_calls w dir_path (fragment_names w dir_path) r1)"
      | "(Some p, Some seg, - 1) \<in> set (env_calls w env_var r2)" by auto
    then show ?thesis
    proof cases
      case 1
      then have "fst r1 = None" unfolding r1_def by (rule file_calls_null)
      then have "fst r2 = None" unfolding r2_def by (rule fold_append_path_file_null)
      then show ?thesis unfolding cp by (rule env_phase_null)
    next
      case 2
      then have "fst r2 = None" unfolding r2_def by (rule files_calls_null)
      then show ?thesis unfolding cp by (rule env_phase_null)
    next
      case 3
      then show ?thesis unfolding cp by (rule env_calls_null)
    qed
  qed
  show "fst (append_path_segment h (Some q) (Some sg)) = - 1 \<longleftrightarrow>
            sg \<noteq> [] \<and> \<not> whole_field q sg \<and> \<not> fst (alloc h)"
    by (rule append_rc_failure)
  show "append_path_segment h (Some q) (Some sg) = (- 1, None, snd (alloc h))"
    if "fst (append_path_segment h (Some q) (Some sg)) = - 1"
    using that by (rule append_rc_null)
  show "fst (append_path_file w pfx fname (None, s')) = None"
    by (simp add: append_path_file_null)
  show "fst (fold (append_path_file w dir_path) names (None, s')) = None"
    by (simp add: fold_append_path_file_null)
  show "fst (env_loop v (None, s')) = None" by (simp add: env_loop_null)
qed

theorem alloc_failure_nulls_build_witness:
  "build_calls w_example (s0\<lparr>mem := [True, True, True, True, False]\<rparr>)
       ''PATH'' ''/etc/paths'' ''/etc/paths.d''
     = [(Some [], Some ''/usr/bin'', 0), (Some ''/usr/bin'', Some ''/bin'', - 1),
        (None, Some ''/usr/local/bin'', - 1), (None, Some ''/usr/bin'', - 1)] \<and>
   fst (construct_path w_example (s0\<lparr>mem := [True, True, True, True, False]\<rparr>)
       ''PATH'' ''/etc/paths'' ''/etc/paths.d'') = None"
proof -
  have b: "build_calls w_example (s0\<lparr>mem := [True, True, True, True, False]\<rparr>)
       ''PATH'' ''/etc/paths'' ''/etc/paths.d''
     = [(Some [], Some ''/usr/bin'', 0), (Some ''/usr/bin'', Some ''/bin'', - 1),
        (None, Some ''/usr/local/bin'', - 1), (None, Some ''/usr/bin'', - 1)]"
    by code_simp
  then have "(Some ''/usr/bin'', Some ''/bin'', - 1)
      \<in> set (build_calls w_example (s0\<lparr>mem := [True, True, True, True, False]\<rparr>)
            ''PATH'' ''/etc/paths'' ''/etc/paths.d'')" by simp
  from alloc_failure_nulls_build[OF this] b show ?thesis by blast
qed

text \<open>
  C4 as stated fails.  In the example system, when the fifth request fails (the
  \<open>reallocf\<close> that appends \<open>/bin\<close>), the build runs to its end with a null path,
  \<open>main\<close> prints and returns 0; when the fourth fails (the \<open>calloc\<close> of
  \<open>read_segment\<close> for the line \<open>/bin\<close>), the line is dropped, the build goes on and
  \<open>main\<close> prints a path without it and returns 0.
\<close>

theorem alloc_failure_ignored_counterexample:
  "append_path_segment [False] (Some ''/usr/bin'') (Some ''/bin'') = (- 1, None, []) \<and>
   main w_example (s0\<lparr>mem := [True, True, True, True, False]\<rparr>) [''path_helper'']
     = (0, [(fmt_export ''PATH'', None)], s0) \<and>
   main w_example (s0\<lparr>mem := [True, True, True, False]\<rparr>) [''path_helper'']
     = (0, [(fmt_export ''PATH'', Some ''/usr/bin:/usr/local/bin'')], s0)"
proof -
  have "main w_example (s0\<lparr>mem := [True, True, True, True, False]\<rparr>) [''path_helper'']
     = (0, [(fmt_export ''PATH'', None)], s0)" by code_simp
  moreover have "main w_example (s0\<lparr>mem := [True, True, True, False]\<rparr>) [''path_helper'']
     = (0, [(fmt_export ''PATH'', Some ''/usr/bin:/usr/local/bin'')], s0)" by code_simp
  moreover have "append_path_segment [False] (Some ''/usr/bin'') (Some ''/bin'') = (- 1, None, [])"
    by code_simp
  ultimately show ?thesis by simp
qed

end
